theory Spec2Isabelle
  imports Complex_Main "HOL-Library.Char_ord"
begin

section \<open>The Pets training benchmark (\<^verbatim>\<open>pytorch/train_pets.py\<close>)\<close>

text \<open>
  The development embeds the label-parsing dataset \<^verbatim>\<open>Pets\<close>, the batch loader built by
  \<^verbatim>\<open>get_dataloader\<close> and the epoch/step loop of \<^verbatim>\<open>train\<close>. Everything that the
  script obtains from outside is a parameter of the model: the list of file names found by
  the directory scan, the image decoder, the clock read by \<^verbatim>\<open>perf_counter\<close> and the
  forward/backward/optimizer step. Argument parsing, experiment tracking set-up, model
  construction and device selection do not influence the counters and metrics and are left
  out.
\<close>

subsection \<open>Exceptions\<close>

text \<open>
  The Python exceptions that the modelled code can raise: indexing a list out of range,
  subscripting \<^verbatim>\<open>None\<close> (the result of a failed \<^verbatim>\<open>re.match\<close>), a missing dictionary
  key, the loader's rejection of a non-positive batch size, and a division by zero.
  \<open>ImageError\<close> stands for whatever the imaging library raises when a file cannot be
  opened, decoded or transformed.
\<close>

datatype error =
  IndexError | TypeError | KeyError string | ValueError | ZeroDivisionError | ImageError

subsection \<open>Regular expressions with backtracking\<close>

text \<open>
  \<^verbatim>\<open>Pets.pat\<close> is \<^verbatim>\<open>(^[a-zA-Z]+_*[a-zA-Z]+)\<close>. It is a sequence of greedy repetitions of
  single-character sets, so a pattern is a list of pieces, each \<open>X+\<close> or \<open>X*\<close> for a
  character set \<open>X\<close>. \<^verbatim>\<open>re.match\<close> anchors at the start of the string, which makes the
  \<^verbatim>\<open>^\<close> redundant, and the parentheses only make group 1 equal to group 0, which is the
  group the code reads. Character ranges compare code points; a file name is a list of
  bytes here, and no byte of a non-ASCII character lies in \<^verbatim>\<open>[a-zA-Z]\<close> or is \<^verbatim>\<open>_\<close>,
  exactly as for the code point itself.
\<close>

datatype cset = Lit char | Ranges "(char \<times> char) list"

fun in_cset :: "cset \<Rightarrow> char \<Rightarrow> bool" where
  "in_cset (Lit a) c = (c = a)"
| "in_cset (Ranges rs) c = list_ex (\<lambda>(lo, hi). lo \<le> c \<and> c \<le> hi) rs"

datatype piece = Many1 cset | Many0 cset

text \<open>
  \<open>many X k s\<close> is the greedy loop of \<open>X*\<close> followed by the rest of the pattern \<open>k\<close>:
  it consumes one more character whenever it can and falls back to fewer repetitions
  only when the rest of the pattern fails, which is the order in which Python's engine
  explores the alternatives. The result is the input left over after the first successful
  alternative.
\<close>

fun many :: "cset \<Rightarrow> (string \<Rightarrow> string option) \<Rightarrow> string \<Rightarrow> string option" where
  "many cs k [] = k []"
| "many cs k (c # s) =
     (if in_cset cs c
      then (case many cs k s of Some r \<Rightarrow> Some r | None \<Rightarrow> k (c # s))
      else k (c # s))"

primrec match_from :: "piece list \<Rightarrow> string \<Rightarrow> string option" where
  "match_from [] = (\<lambda>s. Some s)"
| "match_from (p # ps) =
     (case p of
        Many0 cs \<Rightarrow> many cs (match_from ps)
      | Many1 cs \<Rightarrow> (\<lambda>s. case s of [] \<Rightarrow> None
                   | c # s' \<Rightarrow> if in_cset cs c then many cs (match_from ps) s' else None))"

text \<open>\<^verbatim>\<open>re.match(p, s)\<close> followed by \<^verbatim>\<open>[0]\<close>: the matched prefix, or \<open>None\<close> for no match.\<close>

definition re_match :: "piece list \<Rightarrow> string \<Rightarrow> string option" where
  "re_match p s = map_option (\<lambda>rest. take (length s - length rest) s) (match_from p s)"

definition letters :: cset where
  "letters = Ranges [(CHR ''a'', CHR ''z''), (CHR ''A'', CHR ''Z'')]"

definition underscore :: cset where
  "underscore = Lit CHR ''_''"

definition pat :: "piece list" where
  "pat = [Many1 letters, Many0 underscore, Many1 letters]"

text \<open>
  The reading of the specification's label rule, kept apart from the code: the leading
  token of a file name that consists of letters and underscores only.
\<close>

definition spec_leading_token :: "string \<Rightarrow> string" where
  "spec_leading_token fn = takeWhile (\<lambda>c. in_cset letters c \<or> c = CHR ''_'') fn"

subsection \<open>The dataset \<^verbatim>\<open>Pets\<close>\<close>

definition vocab :: "string list" where
  "vocab = [''Abyssinian'', ''Bengal'', ''Birman'', ''Bombay'', ''British_Shorthair'', ''Egyptian_Mau'', ''Maine_Coon'',
            ''Persian'', ''Ragdoll'', ''Russian_Blue'', ''Siamese'', ''Sphynx'', ''american_bulldog'', ''american_pit'',
            ''basset_hound'', ''beagle'', ''boxer'', ''chihuahua'', ''english_cocker'', ''english_setter'', ''german_shorthaired'',
            ''great_pyrenees'', ''havanese'', ''japanese_chin'', ''keeshond'', ''leonberger'', ''miniature_pinscher'', ''newfoundland'',
            ''pomeranian'', ''pug'', ''saint_bernard'', ''samoyed'', ''scottish_terrier'', ''shiba_inu'', ''staffordshire_bull'',
            ''wheaten_terrier'', ''yorkshire_terrier'']"

text \<open>
  The dictionary comprehension \<^verbatim>\<open>{v:i for i,v in enumerate(vs)}\<close>: the entries are stored
  in order, a later entry for the same key replacing an earlier one.
\<close>

definition dict_of_enumerate :: "'k list \<Rightarrow> ('k \<rightharpoonup> nat)" where
  "dict_of_enumerate vs = fold (\<lambda>(i, v) m. m(v \<mapsto> i)) (enumerate 0 vs) Map.empty"

definition vocab_map :: "string \<rightharpoonup> nat" where
  "vocab_map = dict_of_enumerate vocab"

text \<open>
  An instance of \<^verbatim>\<open>Pets\<close>: \<open>files\<close> holds the base names of the paths found by the
  directory scan, in scan order, and \<open>tfms\<close> is the composition of \<^verbatim>\<open>load_image\<close> with
  the resize-and-convert transform for the configured image size. What a file holds is
  outside the program, so \<open>tfms\<close> is a parameter: it yields the tensor of a file, or
  \<open>None\<close> when the imaging library raises on it. The instance's \<^verbatim>\<open>vocab_map\<close> is built
  by the same comprehension as the class attribute and is the constant above.
\<close>

record 'img Pets =
  files :: "string list"
  tfms :: "string \<Rightarrow> 'img option"

definition len :: "'img Pets \<Rightarrow> nat" where
  "len ds = length (files ds)"

text \<open>
  \<^verbatim>\<open>__getitem__\<close>: list indexing (a negative index counts from the end, an index out of
  range raises), then the pair of the transformed image and the class index. Python
  evaluates the components of the pair from left to right, so the image is loaded and
  transformed first, and an exception there is raised before the file name is looked at.
  A failed match gives \<^verbatim>\<open>None\<close>, whose subscript \<^verbatim>\<open>[0]\<close> raises \<^verbatim>\<open>TypeError\<close>; a token
  that is not a key of the dictionary raises \<^verbatim>\<open>KeyError\<close>.
\<close>

definition getitem :: "'img Pets \<Rightarrow> int \<Rightarrow> error + ('img \<times> nat)" where
  "getitem ds idx =
     (let n = int (length (files ds));
          j = (if idx < 0 then n + idx else idx)
      in if \<not> (0 \<le> j \<and> j < n) then Inl IndexError
         else let file = files ds ! nat j
              in case tfms ds file of
                   None \<Rightarrow> Inl ImageError
                 | Some img \<Rightarrow>
                     (case re_match pat file of
                        None \<Rightarrow> Inl TypeError
                      | Some key \<Rightarrow>
                          (case vocab_map key of
                             None \<Rightarrow> Inl (KeyError key)
                           | Some i \<Rightarrow> Inr (img, i))))"

text \<open>A file name from which \<^verbatim>\<open>__getitem__\<close> can compute a class index.\<close>

definition labelled :: "string \<Rightarrow> bool" where
  "labelled fn = (case re_match pat fn of None \<Rightarrow> False | Some key \<Rightarrow> vocab_map key \<noteq> None)"

text \<open>A file whose image the dataset can load and transform.\<close>

definition decodes :: "'img Pets \<Rightarrow> string \<Rightarrow> bool" where
  "decodes ds fn = (case tfms ds fn of None \<Rightarrow> False | Some img \<Rightarrow> True)"

subsection \<open>The batch loader\<close>

text \<open>
  \<^verbatim>\<open>get_dataloader\<close> wraps the dataset in a \<^verbatim>\<open>torch.utils.data.DataLoader\<close> with the
  library's defaults: no shuffling and no dropping of the last batch. The loader refuses a
  batch size that is not positive with \<^verbatim>\<open>ValueError\<close>. The number of workers and the
  pinned-memory hint do not change which batches are produced.
\<close>

record 'img DataLoader =
  dataset :: "'img Pets"
  dl_batch_size :: nat

definition get_dataloader :: "'img Pets \<Rightarrow> int \<Rightarrow> error + 'img DataLoader" where
  "get_dataloader ds batch_size =
     (if batch_size \<le> 0 then Inl ValueError
      else Inr \<lparr>dataset = ds, dl_batch_size = nat batch_size\<rparr>)"

text \<open>
  The loader's batch sampler cuts the index sequence into consecutive runs of
  \<open>bs\<close> indices; the last run is shorter when the sequence does not divide evenly.
\<close>

function batch_sampler :: "nat \<Rightarrow> nat list \<Rightarrow> nat list list" where
  "batch_sampler bs idxs =
     (if bs = 0 \<or> idxs = [] then []
      else take bs idxs # batch_sampler bs (drop bs idxs))"
  by pat_completeness auto
termination
  by (relation "measure (\<lambda>(bs, idxs). length idxs)") auto

declare batch_sampler.simps [simp del]

text \<open>
  A batch is fetched by calling \<^verbatim>\<open>__getitem__\<close> for each of its indices in order; the
  first exception aborts the batch and reaches the consumer of the loader.
\<close>

fun collate :: "(error + 'a) list \<Rightarrow> error + 'a list" where
  "collate [] = Inr []"
| "collate (x # xs) =
     (case x of
        Inl e \<Rightarrow> Inl e
      | Inr v \<Rightarrow> (case collate xs of Inl e \<Rightarrow> Inl e | Inr vs \<Rightarrow> Inr (v # vs)))"

definition fetch :: "'img Pets \<Rightarrow> nat list \<Rightarrow> error + ('img \<times> nat) list" where
  "fetch ds idxs = collate (map (\<lambda>i. getitem ds (int i)) idxs)"

text \<open>One pass over the loader: the batches of an epoch, in the order they are produced.\<close>

definition dl_iter :: "'img DataLoader \<Rightarrow> (error + ('img \<times> nat) list) list" where
  "dl_iter dl =
     map (fetch (dataset dl)) (batch_sampler (dl_batch_size dl) [0..<len (dataset dl)])"

subsection \<open>The training loop\<close>

text \<open>
  The fields of the configuration that the loop reads for its counters and metrics; both
  are parsed as Python integers.
\<close>

record config =
  batch_size :: int
  epochs :: int

text \<open>
  The outside world of the loop: \<open>perf_counter k\<close> is the value of the \<open>k\<close>-th reading of
  the clock, and \<open>optimize m batch\<close> is the forward pass, loss, backward pass and
  optimizer step on a batch, returning the loss and the updated model and optimizer; a
  failure of the compute device is outside the model.
\<close>

record ('img, 'm) backend =
  perf_counter :: "nat \<Rightarrow> real"
  optimize :: "'m \<Rightarrow> ('img \<times> nat) list \<Rightarrow> real \<times> 'm"

text \<open>The dictionary passed to \<^verbatim>\<open>wandb.log\<close>, one field per key.\<close>

record metrics =
  train_loss :: real
  train_epoch :: real
  train_example_ct :: nat
  samples_per_sec :: real
  samples_per_sec_epoch :: real

text \<open>
  The mutable state of \<^verbatim>\<open>train\<close>: the two counters, the model with its optimizer, the
  number of clock readings taken so far, and the records handed to \<^verbatim>\<open>wandb.log\<close>, oldest
  first.
\<close>

record 'm run_state =
  example_ct :: nat
  step_ct :: nat
  model :: 'm
  ticks :: nat
  wandb_log :: "metrics list"

text \<open>Python's \<^verbatim>\<open>/\<close> on numbers, with reals standing for floats.\<close>

definition py_div :: "real \<Rightarrow> real \<Rightarrow> error + real" where
  "py_div a b = (if b = 0 then Inl ZeroDivisionError else Inr (a / b))"

text \<open>\<^verbatim>\<open>math.ceil(len(train_dl.dataset) / config.batch_size)\<close>.\<close>

definition n_steps_per_epoch :: "nat \<Rightarrow> int \<Rightarrow> int" where
  "n_steps_per_epoch dataset_size bsz = \<lceil>real dataset_size / real_of_int bsz\<rceil>"

text \<open>
  The dictionary \<^verbatim>\<open>metrics\<close> of one step: \<open>ex\<close> is \<^verbatim>\<open>example_ct\<close> after its update,
  \<open>nimg\<close> is \<^verbatim>\<open>len(images)\<close>, and \<open>t0\<close>, \<open>ti\<close>, \<open>tf\<close> are the clock readings at the start of
  the epoch, before the forward pass and after the optimizer step.
\<close>

definition make_metrics ::
  "int \<Rightarrow> nat \<Rightarrow> nat \<Rightarrow> real \<Rightarrow> nat \<Rightarrow> nat \<Rightarrow> real \<Rightarrow> real \<Rightarrow> real \<Rightarrow> error + metrics" where
  "make_metrics n epoch step loss ex nimg t0 ti tf =
     (case py_div (real step + 1 + real_of_int n * real epoch) (real_of_int n) of
        Inl e \<Rightarrow> Inl e
      | Inr ep \<Rightarrow>
     (case py_div (real nimg) (tf - ti) of
        Inl e \<Rightarrow> Inl e
      | Inr sps \<Rightarrow>
     (case py_div (real ex) (tf - t0) of
        Inl e \<Rightarrow> Inl e
      | Inr spse \<Rightarrow>
          Inr \<lparr>train_loss = loss, train_epoch = ep, train_example_ct = ex,
               samples_per_sec = sps, samples_per_sec_epoch = spse\<rparr>)))"

text \<open>The body of the inner loop for the batch number \<open>step\<close> of epoch \<open>epoch\<close>.\<close>

definition train_batch ::
  "('img, 'm) backend \<Rightarrow> int \<Rightarrow> nat \<Rightarrow> real \<Rightarrow> nat \<Rightarrow> ('img \<times> nat) list \<Rightarrow>
   'm run_state \<Rightarrow> error + 'm run_state" where
  "train_batch be n epoch t0 step batch s =
     (let ti = perf_counter be (ticks s);
          (loss, m') = optimize be (model s) batch;
          tf = perf_counter be (ticks s + 1);
          ex = example_ct s + length batch
      in case make_metrics n epoch step loss ex (length batch) t0 ti tf of
           Inl e \<Rightarrow> Inl e
         | Inr m \<Rightarrow>
             Inr \<lparr>example_ct = ex,
                  step_ct = step_ct s + 1,
                  model = m',
                  ticks = ticks s + 2,
                  wandb_log = (if int step + 1 < n then wandb_log s @ [m] else wandb_log s)\<rparr>)"

text \<open>The inner loop over the batches of one epoch, numbered from \<open>step\<close>.\<close>

fun train_epoch_loop ::
  "('img, 'm) backend \<Rightarrow> int \<Rightarrow> nat \<Rightarrow> real \<Rightarrow> nat \<Rightarrow> (error + ('img \<times> nat) list) list \<Rightarrow>
   'm run_state \<Rightarrow> error + 'm run_state" where
  "train_epoch_loop be n epoch t0 step [] s = Inr s"
| "train_epoch_loop be n epoch t0 step (b # bs) s =
     (case b of
        Inl e \<Rightarrow> Inl e
      | Inr batch \<Rightarrow>
          (case train_batch be n epoch t0 step batch s of
             Inl e \<Rightarrow> Inl e
           | Inr s' \<Rightarrow> train_epoch_loop be n epoch t0 (step + 1) bs s'))"

text \<open>The outer loop over the epochs: read the clock, then run the inner loop.\<close>

fun train_epochs ::
  "('img, 'm) backend \<Rightarrow> int \<Rightarrow> 'img DataLoader \<Rightarrow> nat list \<Rightarrow> 'm run_state \<Rightarrow>
   error + 'm run_state" where
  "train_epochs be n dl [] s = Inr s"
| "train_epochs be n dl (epoch # es) s =
     (case train_epoch_loop be n epoch (perf_counter be (ticks s)) 0 (dl_iter dl)
             (s\<lparr>ticks := ticks s + 1\<rparr>) of
        Inl e \<Rightarrow> Inl e
      | Inr s' \<Rightarrow> train_epochs be n dl es s')"

definition init_state :: "'m \<Rightarrow> 'm run_state" where
  "init_state m0 = \<lparr>example_ct = 0, step_ct = 0, model = m0, ticks = 0, wandb_log = []\<rparr>"

text \<open>
  \<^verbatim>\<open>train\<close>: build the loader, compute the number of steps per epoch once, then run
  \<^verbatim>\<open>range(config.epochs)\<close> epochs from zeroed counters. \<open>m0\<close> is the freshly built model
  with its optimizer.
\<close>

definition train ::
  "('img, 'm) backend \<Rightarrow> config \<Rightarrow> 'img Pets \<Rightarrow> 'm \<Rightarrow> error + 'm run_state" where
  "train be cfg ds m0 =
     (case get_dataloader ds (batch_size cfg) of
        Inl e \<Rightarrow> Inl e
      | Inr dl \<Rightarrow>
          train_epochs be (n_steps_per_epoch (len (dataset dl)) (batch_size cfg)) dl
            [0..<nat (epochs cfg)] (init_state m0))"

section \<open>Properties of the embedding\<close>

subsection \<open>The label pattern\<close>

lemma many_Some: "many cs Some s = Some (dropWhile (in_cset cs) s)"
  by (induction s) auto

lemma many_skip:
  assumes "\<And>c t. in_cset cs c \<Longrightarrow> k (c # t) = None"
  shows "many cs k s = k (dropWhile (in_cset cs) s)"
  using assms by (induction s) (auto split: option.splits)

lemma match_last_piece:
  "match_from [Many1 cs] s =
     (if takeWhile (in_cset cs) s = [] then None else Some (dropWhile (in_cset cs) s))"
  by (cases s) (auto simp: many_Some)

lemma underscore_not_letter: "\<not> in_cset letters CHR ''_''"
  by (simp add: letters_def)

lemma letter_not_underscore: "in_cset letters c \<Longrightarrow> \<not> in_cset underscore c"
  using underscore_not_letter by (auto simp: underscore_def)

lemma match_underscores_then_letters:
  "match_from [Many0 underscore, Many1 letters] s =
     match_from [Many1 letters] (dropWhile (in_cset underscore) s)"
proof -
  have "many underscore (match_from [Many1 letters]) s =
        match_from [Many1 letters] (dropWhile (in_cset underscore) s)"
  proof (rule many_skip)
    fix c t assume "in_cset underscore c"
    then have "\<not> in_cset letters c" using letter_not_underscore by blast
    then show "match_from [Many1 letters] (c # t) = None" by simp
  qed
  then show ?thesis by simp
qed

lemma tail_at_letter:
  assumes "in_cset letters c"
  shows "match_from [Many0 underscore, Many1 letters] (c # s) = Some (dropWhile (in_cset letters) s)"
  using assms letter_not_underscore[OF assms]
  by (simp add: match_underscores_then_letters match_last_piece del: match_from.simps)

lemma many_letters_backtrack:
  "many letters (match_from [Many0 underscore, Many1 letters]) s =
     (case match_from [Many0 underscore, Many1 letters] (dropWhile (in_cset letters) s) of
        Some r \<Rightarrow> Some r
      | None \<Rightarrow> if takeWhile (in_cset letters) s = [] then None
                else Some (dropWhile (in_cset letters) s))"
proof (induction s)
  case Nil
  then show ?case by simp
next
  case (Cons c s)
  show ?case
  proof (cases "in_cset letters c")
    case True
    then show ?thesis
      using Cons.IH tail_at_letter[OF True, of s]
      by (simp del: match_from.simps split: option.splits if_splits)
  next
    case False
    then show ?thesis by (simp del: match_from.simps split: option.splits)
  qed
qed

lemma match_from_pat:
  "match_from pat s =
     (let l1 = takeWhile (in_cset letters) s;
          r1 = dropWhile (in_cset letters) s;
          r2 = dropWhile (in_cset underscore) r1
      in if l1 = [] then None
         else if takeWhile (in_cset letters) r2 \<noteq> [] then Some (dropWhile (in_cset letters) r2)
         else if 2 \<le> length l1 then Some r1 else None)"
proof (cases s)
  case Nil
  then show ?thesis by (simp add: pat_def)
next
  case (Cons c t)
  have unfold: "match_from pat (c # t) =
      (if in_cset letters c then many letters (match_from [Many0 underscore, Many1 letters]) t else None)"
    by (simp add: pat_def)
  show ?thesis
    unfolding Cons unfold
    by (simp add: many_letters_backtrack match_underscores_then_letters match_last_piece
                  Let_def Suc_le_eq
             del: match_from.simps)
qed

lemma take_prefix_of_append: "s = xs @ ys \<Longrightarrow> take (length s - length ys) s = xs"
  by simp

lemma takeWhile_Nil_dropWhile: "takeWhile P xs = [] \<Longrightarrow> dropWhile P xs = xs"
  by (cases xs) (auto split: if_splits)

lemma takeWhile_after_dropWhile: "takeWhile P (dropWhile P xs) = []"
  by (induction xs) auto

lemma re_match_pat_closed_form:
  "re_match pat s =
     (let l1 = takeWhile (in_cset letters) s;
          r1 = dropWhile (in_cset letters) s;
          u = takeWhile (in_cset underscore) r1;
          l2 = takeWhile (in_cset letters) (dropWhile (in_cset underscore) r1)
      in if l1 \<noteq> [] \<and> u \<noteq> [] \<and> l2 \<noteq> [] then Some (l1 @ u @ l2)
         else if 2 \<le> length l1 then Some l1
         else None)"
proof -
  define l1 where "l1 = takeWhile (in_cset letters) s"
  define r1 where "r1 = dropWhile (in_cset letters) s"
  define u where "u = takeWhile (in_cset underscore) r1"
  define r2 where "r2 = dropWhile (in_cset underscore) r1"
  define l2 where "l2 = takeWhile (in_cset letters) r2"
  define r3 where "r3 = dropWhile (in_cset letters) r2"
  have s1: "s = l1 @ r1" by (simp add: l1_def r1_def)
  have s2: "r1 = u @ r2" by (simp add: u_def r2_def)
  have s3: "r2 = l2 @ r3" by (simp add: l2_def r3_def)
  have "s = (l1 @ u @ l2) @ r3" using s1 s2 s3 by simp
  then have A: "take (length s - length r3) s = l1 @ u @ l2"
    by (rule take_prefix_of_append)
  have B: "take (length s - length r1) s = l1"
    using s1 by (rule take_prefix_of_append)
  have u_empty: "l2 = []" if "u = []"
  proof -
    have "r2 = r1" using that by (simp add: u_def r2_def takeWhile_Nil_dropWhile)
    then show ?thesis by (simp add: l2_def r1_def takeWhile_after_dropWhile)
  qed
  have m: "match_from pat s =
      (if l1 = [] then None else if l2 \<noteq> [] then Some r3
       else if 2 \<le> length l1 then Some r1 else None)"
    by (simp add: match_from_pat Let_def l1_def r1_def r2_def l2_def r3_def)
  have "re_match pat s =
      (if l1 \<noteq> [] \<and> u \<noteq> [] \<and> l2 \<noteq> [] then Some (l1 @ u @ l2)
       else if 2 \<le> length l1 then Some l1 else None)"
  proof (cases "l1 = []")
    case True
    then show ?thesis by (simp add: re_match_def m)
  next
    case l1: False
    show ?thesis
    proof (cases "l2 = []")
      case True
      then show ?thesis using l1 B by (simp add: re_match_def m)
    next
      case False
      then have "u \<noteq> []" using u_empty by blast
      then show ?thesis using l1 False A by (simp add: re_match_def m)
    qed
  qed
  then show ?thesis
    by (simp add: Let_def l1_def r1_def u_def r2_def l2_def)
qed

lemma re_match_pat_shape:
  assumes "re_match pat s = Some t"
  shows "(\<exists>rest. s = t @ rest) \<and> 2 \<le> length t
       \<and> (\<forall>c\<in>set t. in_cset letters c \<or> c = CHR ''_'')
       \<and> in_cset letters (hd t) \<and> in_cset letters (last t)"
proof -
  define l1 where "l1 = takeWhile (in_cset letters) s"
  define r1 where "r1 = dropWhile (in_cset letters) s"
  define u where "u = takeWhile (in_cset underscore) r1"
  define r2 where "r2 = dropWhile (in_cset underscore) r1"
  define l2 where "l2 = takeWhile (in_cset letters) r2"
  define r3 where "r3 = dropWhile (in_cset letters) r2"
  have s1: "s = l1 @ r1" by (simp add: l1_def r1_def)
  have s2: "r1 = u @ r2" by (simp add: u_def r2_def)
  have s3: "r2 = l2 @ r3" by (simp add: l2_def r3_def)
  have L1: "\<forall>c\<in>set l1. in_cset letters c" unfolding l1_def by (auto dest: set_takeWhileD)
  have L2: "\<forall>c\<in>set l2. in_cset letters c" unfolding l2_def by (auto dest: set_takeWhileD)
  have U: "\<forall>c\<in>set u. c = CHR ''_''"
    unfolding u_def by (auto dest: set_takeWhileD simp: underscore_def)
  have t: "t = (if l1 \<noteq> [] \<and> u \<noteq> [] \<and> l2 \<noteq> [] then l1 @ u @ l2 else l1)"
    and ok: "(l1 \<noteq> [] \<and> u \<noteq> [] \<and> l2 \<noteq> []) \<or> 2 \<le> length l1"
    using assms
    by (auto simp: re_match_pat_closed_form Let_def l1_def r1_def u_def r2_def l2_def
             split: if_splits)
  show ?thesis
  proof (cases "l1 \<noteq> [] \<and> u \<noteq> [] \<and> l2 \<noteq> []")
    case True
    then have t': "t = l1 @ u @ l2" using t by simp
    have "s = t @ r3" using s1 s2 s3 t' by simp
    moreover have "2 \<le> length t"
      using True t' by (cases l1; cases u) auto
    moreover have "\<forall>c\<in>set t. in_cset letters c \<or> c = CHR ''_''"
      using L1 L2 U t' by auto
    moreover have "in_cset letters (hd t)" using True L1 t' by (cases l1) auto
    moreover have "in_cset letters (last t)" using True L2 t' by (simp add: last_in_set)
    ultimately show ?thesis by blast
  next
    case False
    then have t': "t = l1" and len: "2 \<le> length l1" using t ok by auto
    then have ne: "l1 \<noteq> []" by auto
    have "s = t @ r1" using s1 t' by simp
    moreover have "in_cset letters (hd t)" using ne L1 t' by (simp add: hd_in_set)
    moreover have "in_cset letters (last t)" using ne L1 t' by (simp add: last_in_set)
    ultimately show ?thesis using len L1 t' by blast
  qed
qed

lemma re_match_pat_needs_letter:
  assumes "spec_leading_token s = []"
  shows "re_match pat s = None"
proof -
  have "takeWhile (in_cset letters) s = []"
    using assms by (cases s) (auto simp: spec_leading_token_def split: if_splits)
  then show ?thesis by (simp add: re_match_pat_closed_form)
qed

subsection \<open>The vocabulary\<close>

lemma fold_enum_notin:
  "k \<notin> set vs \<Longrightarrow> fold (\<lambda>(i, v) m. m(v \<mapsto> i)) (enumerate n vs) m k = m k"
  by (induction vs arbitrary: n m) auto

lemma fold_enum_distinct:
  "distinct vs \<Longrightarrow> i < length vs \<Longrightarrow>
   fold (\<lambda>(j, v) m. m(v \<mapsto> j)) (enumerate n vs) m (vs ! i) = Some (n + i)"
proof (induction vs arbitrary: n m i)
  case Nil
  then show ?case by simp
next
  case (Cons v vs)
  show ?case
  proof (cases i)
    case 0
    have "v \<notin> set vs" using Cons.prems by simp
    then have "fold (\<lambda>(j, v) m. m(v \<mapsto> j)) (enumerate (Suc n) vs) (m(v \<mapsto> n)) v = (m(v \<mapsto> n)) v"
      by (rule fold_enum_notin)
    also have "\<dots> = Some n" by simp
    finally show ?thesis using 0 by (simp del: fun_upd_apply)
  next
    case (Suc j)
    then show ?thesis using Cons.prems Cons.IH[of j "Suc n"] by simp
  qed
qed

lemma dict_of_enumerate_distinct:
  assumes "distinct vs"
  shows "dict_of_enumerate vs k = Some i \<longleftrightarrow> i < length vs \<and> vs ! i = k"
proof (cases "k \<in> set vs")
  case False
  then have "dict_of_enumerate vs k = None"
    by (simp add: dict_of_enumerate_def fold_enum_notin)
  moreover have "\<not> (i < length vs \<and> vs ! i = k)"
    using False nth_mem by blast
  ultimately show ?thesis by simp
next
  case True
  then obtain j where j: "j < length vs" "vs ! j = k" by (auto simp: in_set_conv_nth)
  have "dict_of_enumerate vs k = Some j"
    using fold_enum_distinct[OF assms j(1), of 0 Map.empty] j(2)
    by (simp add: dict_of_enumerate_def)
  moreover have "i = j" if "i < length vs" "vs ! i = k"
    using that assms j nth_eq_iff_index_eq[of vs i j] by simp
  ultimately show ?thesis using j by auto
qed

lemma distinct_vocab: "distinct vocab"
  by (simp add: vocab_def)

lemma length_vocab: "length vocab = 37"
  by (simp add: vocab_def)

lemma vocab_map_iff: "vocab_map k = Some i \<longleftrightarrow> i < 37 \<and> vocab ! i = k"
  using dict_of_enumerate_distinct[OF distinct_vocab] by (simp add: vocab_map_def length_vocab)


lemma dict_of_enumerate_bij:
  assumes "distinct vs"
  shows "bij_betw (\<lambda>v. the (dict_of_enumerate vs v)) (set vs) {0..<length vs}"
proof (rule bij_betwI')
  fix v w assume v: "v \<in> set vs" and w: "w \<in> set vs"
  from v obtain i where i: "i < length vs" "vs ! i = v" by (auto simp: in_set_conv_nth)
  from w obtain j where j: "j < length vs" "vs ! j = w" by (auto simp: in_set_conv_nth)
  have dv: "dict_of_enumerate vs v = Some i"
    using i by (simp add: dict_of_enumerate_distinct[OF assms])
  have dw: "dict_of_enumerate vs w = Some j"
    using j by (simp add: dict_of_enumerate_distinct[OF assms])
  have "(i = j) = (v = w)"
    using nth_eq_iff_index_eq[OF assms i(1) j(1)] i(2) j(2) by simp
  then show "(the (dict_of_enumerate vs v) = the (dict_of_enumerate vs w)) = (v = w)"
    by (simp only: dv dw option.sel)
next
  fix v assume "v \<in> set vs"
  then obtain i where i: "i < length vs" "vs ! i = v" by (auto simp: in_set_conv_nth)
  then have "dict_of_enumerate vs v = Some i"
    by (simp add: dict_of_enumerate_distinct[OF assms])
  then show "the (dict_of_enumerate vs v) \<in> {0..<length vs}" using i by simp
next
  fix k :: nat assume "k \<in> {0..<length vs}"
  then have k: "k < length vs" by simp
  then have "vs ! k \<in> set vs" by simp
  moreover have "dict_of_enumerate vs (vs ! k) = Some k"
    using k by (simp add: dict_of_enumerate_distinct[OF assms])
  ultimately show "\<exists>v\<in>set vs. k = the (dict_of_enumerate vs v)"
    by (intro bexI[of _ "vs ! k"]) simp_all
qed

lemma vocab_map_bij: "bij_betw (\<lambda>v. the (vocab_map v)) (set vocab) {0..<37}"
  using dict_of_enumerate_bij[OF distinct_vocab]
  by (simp only: vocab_map_def length_vocab)

subsection \<open>\<^verbatim>\<open>__getitem__\<close>\<close>

lemma getitem_in_range:
  assumes "i < len ds"
  shows "getitem ds (int i) =
     (case tfms ds (files ds ! i) of
        None \<Rightarrow> Inl ImageError
      | Some img \<Rightarrow>
          (case re_match pat (files ds ! i) of
             None \<Rightarrow> Inl TypeError
           | Some key \<Rightarrow>
               (case vocab_map key of
                  None \<Rightarrow> Inl (KeyError key)
                | Some k \<Rightarrow> Inr (img, k))))"
  using assms by (simp add: getitem_def len_def Let_def)


lemma getitem_decoded:
  assumes "i < len ds" and "tfms ds (files ds ! i) = Some img"
  shows "getitem ds (int i) =
     (case re_match pat (files ds ! i) of
        None \<Rightarrow> Inl TypeError
      | Some key \<Rightarrow>
          (case vocab_map key of
             None \<Rightarrow> Inl (KeyError key)
           | Some k \<Rightarrow> Inr (img, k)))"
  using assms by (simp add: getitem_in_range)

lemma getitem_labelled:
  assumes "i < len ds"
  shows "isl (getitem ds (int i)) \<longleftrightarrow>
         \<not> (labelled (files ds ! i) \<and> decodes ds (files ds ! i))"
  using assms
  by (auto simp: getitem_in_range labelled_def decodes_def split: option.splits)

subsection \<open>The batch sampler\<close>

lemma batch_sampler_Nil [simp]: "batch_sampler bs [] = []"
  by (simp add: batch_sampler.simps)

lemma batch_sampler_step:
  "0 < bs \<Longrightarrow> idxs \<noteq> [] \<Longrightarrow>
   batch_sampler bs idxs = take bs idxs # batch_sampler bs (drop bs idxs)"
  by (subst batch_sampler.simps) simp

lemma concat_batch_sampler: "0 < bs \<Longrightarrow> concat (batch_sampler bs idxs) = idxs"
proof (induction bs idxs rule: batch_sampler.induct)
  case (1 bs idxs)
  show ?case
  proof (cases "idxs = []")
    case True
    then show ?thesis by simp
  next
    case False
    then show ?thesis using 1 by (simp add: batch_sampler_step)
  qed
qed

lemma map_length_batch_sampler:
  "0 < bs \<Longrightarrow>
   map length (batch_sampler bs idxs) =
     replicate (length idxs div bs) bs @
     (if length idxs mod bs = 0 then [] else [length idxs mod bs])"
proof (induction bs idxs rule: batch_sampler.induct)
  case (1 bs idxs)
  show ?case
  proof (cases "idxs = []")
    case True
    then show ?thesis by simp
  next
    case ne: False
    show ?thesis
    proof (cases "bs \<le> length idxs")
      case True
      have d: "length idxs div bs = Suc ((length idxs - bs) div bs)"
        using True 1(2) by (simp add: le_div_geq)
      have m: "length idxs mod bs = (length idxs - bs) mod bs"
        using True by (simp add: le_mod_geq)
      have IH: "map length (batch_sampler bs (drop bs idxs)) =
          replicate ((length idxs - bs) div bs) bs @
          (if (length idxs - bs) mod bs = 0 then [] else [(length idxs - bs) mod bs])"
        using 1 ne by simp
      show ?thesis
        using ne 1(2) True IH
        by (simp add: batch_sampler_step d m min_absorb2 del: replicate.simps)
           (simp add: replicate.simps(2)[symmetric] d del: replicate.simps)
    next
      case False
      then have lt: "length idxs < bs" by simp
      then have "drop bs idxs = []" by simp
      then show ?thesis using ne lt 1(2) by (simp add: batch_sampler_step)
    qed
  qed
qed

lemma length_batch_sampler:
  assumes "0 < bs"
  shows "length (batch_sampler bs idxs) =
         length idxs div bs + (if length idxs mod bs = 0 then 0 else 1)"
proof -
  have "length (batch_sampler bs idxs) = length (map length (batch_sampler bs idxs))" by simp
  also have "\<dots> = length idxs div bs + (if length idxs mod bs = 0 then 0 else 1)"
    by (simp only: map_length_batch_sampler[OF assms]) simp
  finally show ?thesis .
qed

lemma sum_list_batch_sampler:
  assumes "0 < bs"
  shows "sum_list (map length (batch_sampler bs idxs)) = length idxs"
proof -
  have "sum_list (map length (batch_sampler bs idxs)) = length (concat (batch_sampler bs idxs))"
    by (simp add: length_concat)
  then show ?thesis by (simp add: concat_batch_sampler[OF assms])
qed

lemma batch_sampler_sizes:
  assumes "0 < bs" and "b \<in> set (batch_sampler bs idxs)"
  shows "0 < length b \<and> length b \<le> bs"
proof -
  have "length b \<in> set (map length (batch_sampler bs idxs))" using assms(2) by simp
  then have "length b \<in> set (replicate (length idxs div bs) bs) \<or>
             (length idxs mod bs \<noteq> 0 \<and> length b = length idxs mod bs)"
    by (simp only: map_length_batch_sampler[OF assms(1)]) (auto split: if_splits)
  then show ?thesis
    using assms(1) mod_less_divisor[OF assms(1), of "length idxs"]
    by (auto simp del: mod_less_divisor)
qed

lemma ceil_div_nat:
  assumes "0 < bs"
  shows "\<lceil>real N / real bs\<rceil> = int (N div bs + (if N mod bs = 0 then 0 else 1))"
proof -
  define q where "q = N div bs"
  define r where "r = N mod bs"
  have N: "N = q * bs + r" and r: "r < bs" using assms by (simp_all add: q_def r_def)
  have x: "real N / real bs = real q + real r / real bs"
    using assms by (simp add: N field_simps)
  show ?thesis
  proof (cases "r = 0")
    case True
    then have "real N / real bs = of_int (int q)" using x by simp
    then have "\<lceil>real N / real bs\<rceil> = int q" by (simp only: ceiling_of_int)
    then show ?thesis using True by (simp add: q_def r_def)
  next
    case False
    have "0 < real r / real bs" using False assms by simp
    moreover have "real r / real bs \<le> 1" using r assms by simp
    ultimately have "of_int (int q + 1) - 1 < real N / real bs"
                and "real N / real bs \<le> of_int (int q + 1)"
      using x by simp_all
    then have "\<lceil>real N / real bs\<rceil> = int q + 1" by (rule ceiling_unique)
    then show ?thesis using False by (simp add: q_def r_def)
  qed
qed

lemma n_steps_per_epoch_eq_length:
  assumes "0 < bsz"
  shows "n_steps_per_epoch N bsz = int (length (batch_sampler (nat bsz) [0..<N]))"
proof -
  have "real_of_int bsz = real (nat bsz)" using assms by simp
  then have "n_steps_per_epoch N bsz = \<lceil>real N / real (nat bsz)\<rceil>"
    by (simp only: n_steps_per_epoch_def)
  also have "\<dots> = int (N div nat bsz + (if N mod nat bsz = 0 then 0 else 1))"
    using assms by (intro ceil_div_nat) simp
  also have "\<dots> = int (length (batch_sampler (nat bsz) [0..<N]))"
    using assms by (simp add: length_batch_sampler)
  finally show ?thesis .
qed

subsection \<open>Fetching batches\<close>

lemma collate_Inr_length: "collate xs = Inr vs \<Longrightarrow> length vs = length xs"
  by (induction xs arbitrary: vs) (auto split: sum.splits)

lemma collate_all_Inr: "\<forall>x\<in>set xs. \<not> isl x \<Longrightarrow> \<exists>vs. collate xs = Inr vs"
proof (induction xs)
  case Nil
  then show ?case by simp
next
  case (Cons x xs)
  then obtain vs where "collate xs = Inr vs" by auto
  moreover obtain v where "x = Inr v" using Cons.prems by (cases x) auto
  ultimately show ?case by simp
qed


lemma collate_Inr_items: "collate xs = Inr vs \<Longrightarrow> map Inr vs = xs"
  by (induction xs arbitrary: vs) (auto split: sum.splits)

lemma collate_Inl_item: "collate xs = Inl e \<Longrightarrow> Inl e \<in> set xs"
  by (induction xs) (auto split: sum.splits)

lemma fetch_length: "fetch ds idxs = Inr b \<Longrightarrow> length b = length idxs"
  by (auto simp: fetch_def dest: collate_Inr_length)

lemma fetch_items:
  "fetch ds idxs = Inr b \<Longrightarrow> map Inr b = map (\<lambda>i. getitem ds (int i)) idxs"
  unfolding fetch_def by (rule collate_Inr_items)

lemma fetch_error:
  assumes "fetch ds idxs = Inl e"
  shows "\<exists>i\<in>set idxs. getitem ds (int i) = Inl e"
proof -
  have "Inl e \<in> set (map (\<lambda>i. getitem ds (int i)) idxs)"
    using assms unfolding fetch_def by (rule collate_Inl_item)
  then show ?thesis by auto
qed

lemma fetch_all_labelled:
  assumes "\<forall>i\<in>set idxs. i < len ds \<and> labelled (files ds ! i) \<and> decodes ds (files ds ! i)"
  shows "\<exists>b. fetch ds idxs = Inr b"
proof -
  have "\<forall>x\<in>set (map (\<lambda>i. getitem ds (int i)) idxs). \<not> isl x"
    using assms by (auto simp: getitem_labelled)
  then show ?thesis unfolding fetch_def by (rule collate_all_Inr)
qed


lemma batch_sampler_subset:
  assumes "0 < bs" and "b \<in> set (batch_sampler bs idxs)"
  shows "set b \<subseteq> set idxs"
proof -
  have "set b \<subseteq> set (concat (batch_sampler bs idxs))" using assms(2) by auto
  then show ?thesis by (simp add: concat_batch_sampler[OF assms(1)])
qed

lemma fetch_batches:
  assumes "\<And>idxs. idxs \<in> set bt \<Longrightarrow> \<exists>b. fetch ds idxs = Inr b"
  shows "\<exists>bl. map (fetch ds) bt = map Inr bl \<and> map length bl = map length bt
            \<and> map Inr (concat bl) = map (\<lambda>i. getitem ds (int i)) (concat bt)"
  using assms
proof (induction bt)
  case Nil
  then show ?case by simp
next
  case (Cons idxs bt)
  from Cons.prems obtain b where b: "fetch ds idxs = Inr b" by auto
  from Cons obtain bl where bl: "map (fetch ds) bt = map Inr bl" "map length bl = map length bt"
    "map Inr (concat bl) = map (\<lambda>i. getitem ds (int i)) (concat bt)"
    by auto
  have "map (fetch ds) (idxs # bt) = map Inr (b # bl)" using b bl(1) by simp
  moreover have "map length (b # bl) = map length (idxs # bt)"
    using fetch_length[OF b] bl(2) by simp
  moreover have "map Inr (concat (b # bl)) = map (\<lambda>i. getitem ds (int i)) (concat (idxs # bt))"
    using fetch_items[OF b] bl(3) by simp
  ultimately show ?case by blast
qed

lemma dl_iter_all_labelled:
  assumes "0 < dl_batch_size dl" and "\<forall>f\<in>set (files (dataset dl)). labelled f"
    and "\<forall>f\<in>set (files (dataset dl)). decodes (dataset dl) f"
  shows "\<exists>bl. dl_iter dl = map Inr bl \<and>
              map length bl = map length (batch_sampler (dl_batch_size dl) [0..<len (dataset dl)]) \<and>
              map Inr (concat bl) = map (\<lambda>i. getitem (dataset dl) (int i)) [0..<len (dataset dl)]"
proof -
  let ?ds = "dataset dl"
  let ?bt = "batch_sampler (dl_batch_size dl) [0..<len ?ds]"
  have ok: "\<exists>b. fetch ?ds idxs = Inr b" if "idxs \<in> set ?bt" for idxs
  proof (rule fetch_all_labelled, rule ballI)
    fix i assume "i \<in> set idxs"
    then have "i \<in> set [0..<len ?ds]" using batch_sampler_subset[OF assms(1) that] by blast
    then have "i < len ?ds" by simp
    moreover from this have "files ?ds ! i \<in> set (files ?ds)" by (simp add: len_def)
    ultimately show "i < len ?ds \<and> labelled (files ?ds ! i) \<and> decodes ?ds (files ?ds ! i)"
      using assms(2,3) by blast
  qed
  have "\<exists>bl. map (fetch ?ds) ?bt = map Inr bl \<and> map length bl = map length ?bt
          \<and> map Inr (concat bl) = map (\<lambda>i. getitem ?ds (int i)) (concat ?bt)"
    using ok by (rule fetch_batches)
  then show ?thesis
    unfolding dl_iter_def by (simp only: concat_batch_sampler[OF assms(1)])
qed

lemma dl_iter_nonempty_batches:
  assumes "0 < dl_batch_size dl" and "Inr b \<in> set (dl_iter dl)"
  shows "b \<noteq> []"
proof -
  from assms(2) obtain idxs where idxs: "idxs \<in> set (batch_sampler (dl_batch_size dl) [0..<len (dataset dl)])"
    and f: "fetch (dataset dl) idxs = Inr b"
    by (auto simp: dl_iter_def)
  have "0 < length idxs" using batch_sampler_sizes[OF assms(1) idxs] by simp
  then show ?thesis using fetch_length[OF f] by auto
qed


subsection \<open>One step of the loop\<close>

lemma make_metrics_Inr:
  assumes "make_metrics n e step loss ex nimg t0 ti tf = Inr m"
  shows "n \<noteq> 0 \<and> tf \<noteq> ti \<and> tf \<noteq> t0
       \<and> m = \<lparr>train_loss = loss,
               train_epoch = (real step + 1 + real_of_int n * real e) / real_of_int n,
               train_example_ct = ex,
               samples_per_sec = real nimg / (tf - ti),
               samples_per_sec_epoch = real ex / (tf - t0)\<rparr>"
  using assms by (auto simp: make_metrics_def py_div_def split: if_splits)

lemma make_metrics_completes:
  assumes "n \<noteq> 0" and "tf \<noteq> ti" and "tf \<noteq> t0"
  shows "\<exists>m. make_metrics n e step loss ex nimg t0 ti tf = Inr m"
  using assms by (simp add: make_metrics_def py_div_def)

lemma train_batch_Inr:
  assumes "train_batch be n e t0 step batch s = Inr s'"
  shows "example_ct s' = example_ct s + length batch"
    and "step_ct s' = step_ct s + 1"
    and "ticks s' = ticks s + 2"
    and "int step + 1 < n \<Longrightarrow>
           \<exists>m. wandb_log s' = wandb_log s @ [m]
              \<and> train_epoch m = (real step + 1 + real_of_int n * real e) / real_of_int n
              \<and> train_example_ct m = example_ct s + length batch
              \<and> samples_per_sec_epoch m =
                  real (example_ct s + length batch) / (perf_counter be (ticks s + 1) - t0)"
    and "\<not> int step + 1 < n \<Longrightarrow> wandb_log s' = wandb_log s"
  using assms
  by (auto simp: train_batch_def Let_def split: prod.splits sum.splits dest!: make_metrics_Inr)

lemma train_batch_completes:
  assumes "n \<noteq> 0"
    and "perf_counter be (ticks s + 1) \<noteq> perf_counter be (ticks s)"
    and "perf_counter be (ticks s + 1) \<noteq> t0"
  shows "\<exists>s'. train_batch be n e t0 step batch s = Inr s'"
proof -
  obtain loss m' where o: "optimize be (model s) batch = (loss, m')" by (cases "optimize be (model s) batch")
  obtain m where "make_metrics n e step loss (example_ct s + length batch) (length batch) t0
       (perf_counter be (ticks s)) (perf_counter be (ticks s + 1)) = Inr m"
    using make_metrics_completes[OF assms] by blast
  then show ?thesis by (simp add: train_batch_def Let_def o)
qed

subsection \<open>The inner loop\<close>

lemma upt_shift: "[i..<i + Suc l] = i # [Suc i..<Suc i + l]"
proof -
  have "[i..<i + Suc l] = i # [Suc i..<i + Suc l]" by (rule upt_conv_Cons) simp
  then show ?thesis by (simp only: add_Suc_right add_Suc)
qed

lemma epoch_loop_run:
  assumes "strict_mono (perf_counter be)" and "t0 = perf_counter be k0" and "k0 < ticks s"
    and "bl \<noteq> [] \<Longrightarrow> n \<noteq> 0"
  shows "\<exists>s'. train_epoch_loop be n e t0 step (map Inr bl) s = Inr s'
            \<and> example_ct s' = example_ct s + sum_list (map length bl)
            \<and> step_ct s' = step_ct s + length bl
            \<and> ticks s' = ticks s + 2 * length bl
            \<and> map train_epoch (wandb_log s') =
                map train_epoch (wandb_log s) @
                map (\<lambda>k. (real k + 1 + real_of_int n * real e) / real_of_int n)
                    (filter (\<lambda>k. int k + 1 < n) [step..<step + length bl])"
  using assms(3,4)
proof (induction bl arbitrary: step s)
  case Nil
  then show ?case by simp
next
  case (Cons b bl)
  have n0: "n \<noteq> 0" using Cons.prems(2) by simp
  have c1: "perf_counter be (ticks s + 1) \<noteq> perf_counter be (ticks s)"
    using assms(1) by (simp add: strict_mono_eq)
  have c2: "perf_counter be (ticks s + 1) \<noteq> t0"
    using assms(1) Cons.prems(1) by (simp add: assms(2) strict_mono_eq)
  obtain s1 where s1: "train_batch be n e t0 step b s = Inr s1"
    using train_batch_completes[OF n0 c1 c2] by blast
  note tb = train_batch_Inr[OF s1]
  have "k0 < ticks s1" using tb(3) Cons.prems(1) by simp
  from Cons.IH[OF this, of "Suc step"] n0
  obtain s' where s': "train_epoch_loop be n e t0 (Suc step) (map Inr bl) s1 = Inr s'"
    "example_ct s' = example_ct s1 + sum_list (map length bl)"
    "step_ct s' = step_ct s1 + length bl"
    "ticks s' = ticks s1 + 2 * length bl"
    "map train_epoch (wandb_log s') =
       map train_epoch (wandb_log s1) @
       map (\<lambda>k. (real k + 1 + real_of_int n * real e) / real_of_int n)
           (filter (\<lambda>k. int k + 1 < n) [Suc step..<Suc step + length bl])"
    by auto
  have run: "train_epoch_loop be n e t0 step (map Inr (b # bl)) s = Inr s'"
    using s1 s'(1) by simp
  have len: "length (b # bl) = Suc (length bl)" by simp
  have upt: "[step..<step + length (b # bl)] = step # [Suc step..<Suc step + length bl]"
    by (simp only: len upt_shift)
  have log1: "map train_epoch (wandb_log s1) =
      map train_epoch (wandb_log s) @
      map (\<lambda>k. (real k + 1 + real_of_int n * real e) / real_of_int n)
          (filter (\<lambda>k. int k + 1 < n) [step])"
  proof (cases "int step + 1 < n")
    case True
    then show ?thesis using tb(4) by auto
  next
    case False
    then show ?thesis using tb(5) by auto
  qed
  have "map train_epoch (wandb_log s') =
      map train_epoch (wandb_log s) @
      map (\<lambda>k. (real k + 1 + real_of_int n * real e) / real_of_int n)
          (filter (\<lambda>k. int k + 1 < n) [step..<step + length (b # bl)])"
    unfolding upt s'(5) log1 by simp
  moreover have "example_ct s' = example_ct s + sum_list (map length (b # bl))"
    using s'(2) tb(1) by simp
  moreover have "step_ct s' = step_ct s + length (b # bl)"
    using s'(3) tb(2) by simp
  moreover have "ticks s' = ticks s + 2 * length (b # bl)"
    using s'(4) tb(3) by simp
  ultimately show ?case using run by blast
qed


lemma epoch_loop_emitted:
  assumes "train_epoch_loop be n e t0 step bs s = Inr s'"
  shows "\<exists>new. wandb_log s' = wandb_log s @ new
             \<and> (\<forall>m\<in>set new. real e < train_epoch m \<and> train_epoch m < real e + 1)"
  using assms
proof (induction bs arbitrary: step s)
  case Nil
  then show ?case by simp
next
  case (Cons b bs)
  from Cons.prems obtain batch s1 where b: "b = Inr batch"
    and s1: "train_batch be n e t0 step batch s = Inr s1"
    and rest: "train_epoch_loop be n e t0 (step + 1) bs s1 = Inr s'"
    by (auto split: sum.splits)
  from Cons.IH[OF rest] obtain new where new: "wandb_log s' = wandb_log s1 @ new"
    "\<forall>m\<in>set new. real e < train_epoch m \<and> train_epoch m < real e + 1" by blast
  note tb = train_batch_Inr[OF s1]
  show ?case
  proof (cases "int step + 1 < n")
    case True
    then obtain m where m: "wandb_log s1 = wandb_log s @ [m]"
      "train_epoch m = (real step + 1 + real_of_int n * real e) / real_of_int n"
      using tb(4) by blast
    have npos: "0 < real_of_int n" using True by simp
    have lt: "real step + 1 < real_of_int n" using True by linarith
    have eq: "train_epoch m = (real step + 1) / real_of_int n + real e"
      using npos by (simp add: m(2) field_simps)
    have "(real step + 1) / real_of_int n < 1" using npos lt by simp
    moreover have "0 < (real step + 1) / real_of_int n" using npos by simp
    ultimately have "real e < train_epoch m \<and> train_epoch m < real e + 1"
      using eq by linarith
    then have "\<forall>x\<in>set (m # new). real e < train_epoch x \<and> train_epoch x < real e + 1"
      using new(2) by simp
    moreover have "wandb_log s' = wandb_log s @ (m # new)" using new(1) m(1) by simp
    ultimately show ?thesis by blast
  next
    case False
    then have "wandb_log s' = wandb_log s @ new" using tb(5) new(1) by simp
    then show ?thesis using new(2) by blast
  qed
qed

lemma epoch_loop_sorted:
  assumes "train_epoch_loop be n e t0 step bs s = Inr s'"
    and "\<And>b. Inr b \<in> set bs \<Longrightarrow> b \<noteq> []"
    and "sorted_wrt (<) (map train_example_ct (wandb_log s))"
    and "\<forall>m\<in>set (wandb_log s). train_example_ct m \<le> example_ct s"
  shows "sorted_wrt (<) (map train_example_ct (wandb_log s'))
       \<and> (\<forall>m\<in>set (wandb_log s'). train_example_ct m \<le> example_ct s')
       \<and> example_ct s \<le> example_ct s'"
  using assms
proof (induction bs arbitrary: step s)
  case Nil
  then show ?case by simp
next
  case (Cons b bs)
  from Cons.prems(1) obtain batch s1 where b: "b = Inr batch"
    and s1: "train_batch be n e t0 step batch s = Inr s1"
    and rest: "train_epoch_loop be n e t0 (step + 1) bs s1 = Inr s'"
    by (auto split: sum.splits)
  note tb = train_batch_Inr[OF s1]
  have ne: "batch \<noteq> []" using Cons.prems(2)[of batch] b by simp
  then have grow: "example_ct s < example_ct s1" using tb(1) by simp
  have inv1: "sorted_wrt (<) (map train_example_ct (wandb_log s1))
            \<and> (\<forall>m\<in>set (wandb_log s1). train_example_ct m \<le> example_ct s1)"
  proof (cases "int step + 1 < n")
    case True
    then obtain m where m: "wandb_log s1 = wandb_log s @ [m]"
      "train_example_ct m = example_ct s + length batch"
      using tb(4) by blast
    have "\<forall>x\<in>set (wandb_log s). train_example_ct x < train_example_ct m"
      using Cons.prems(4) m(2) ne by (auto simp: less_Suc_eq_le intro: le_less_trans)
    then show ?thesis
      using Cons.prems(3,4) m tb(1) by (auto simp: sorted_wrt_append)
  next
    case False
    then show ?thesis using tb(5) Cons.prems(3,4) grow by auto
  qed
  have "sorted_wrt (<) (map train_example_ct (wandb_log s'))
       \<and> (\<forall>m\<in>set (wandb_log s'). train_example_ct m \<le> example_ct s')
       \<and> example_ct s1 \<le> example_ct s'"
    using Cons.IH[OF rest] Cons.prems(2) inv1 by simp
  then show ?case using grow by simp
qed

subsection \<open>The outer loop\<close>

lemma epochs_run:
  assumes "strict_mono (perf_counter be)" and "dl_iter dl = map Inr bl"
    and "bl \<noteq> [] \<Longrightarrow> n \<noteq> 0"
  shows "\<exists>s'. train_epochs be n dl es s = Inr s'
            \<and> example_ct s' = example_ct s + length es * sum_list (map length bl)
            \<and> step_ct s' = step_ct s + length es * length bl
            \<and> map train_epoch (wandb_log s') =
                map train_epoch (wandb_log s) @
                concat (map (\<lambda>e. map (\<lambda>k. (real k + 1 + real_of_int n * real e) / real_of_int n)
                                    (filter (\<lambda>k. int k + 1 < n) [0..<length bl])) es)"
proof (induction es arbitrary: s)
  case Nil
  then show ?case by simp
next
  case (Cons e es)
  let ?s0 = "s\<lparr>ticks := ticks s + 1\<rparr>"
  have "ticks s < ticks ?s0" by simp
  from epoch_loop_run[OF assms(1) refl this assms(3), where e = e and step = 0]
  obtain s1 where s1: "train_epoch_loop be n e (perf_counter be (ticks s)) 0 (map Inr bl) ?s0 = Inr s1"
    "example_ct s1 = example_ct ?s0 + sum_list (map length bl)"
    "step_ct s1 = step_ct ?s0 + length bl"
    "map train_epoch (wandb_log s1) =
       map train_epoch (wandb_log ?s0) @
       map (\<lambda>k. (real k + 1 + real_of_int n * real e) / real_of_int n)
           (filter (\<lambda>k. int k + 1 < n) [0..<0 + length bl])"
    by blast
  from Cons.IH[of s1]
  obtain s' where s': "train_epochs be n dl es s1 = Inr s'"
    "example_ct s' = example_ct s1 + length es * sum_list (map length bl)"
    "step_ct s' = step_ct s1 + length es * length bl"
    "map train_epoch (wandb_log s') =
       map train_epoch (wandb_log s1) @
       concat (map (\<lambda>e. map (\<lambda>k. (real k + 1 + real_of_int n * real e) / real_of_int n)
                           (filter (\<lambda>k. int k + 1 < n) [0..<length bl])) es)"
    by blast
  have "train_epochs be n dl (e # es) s = Inr s'"
    using s1(1) s'(1) by (simp add: assms(2))
  moreover have "example_ct s' = example_ct s + length (e # es) * sum_list (map length bl)"
    using s1(2) s'(2) by simp
  moreover have "step_ct s' = step_ct s + length (e # es) * length bl"
    using s1(3) s'(3) by simp
  moreover have "map train_epoch (wandb_log s') =
       map train_epoch (wandb_log s) @
       concat (map (\<lambda>e. map (\<lambda>k. (real k + 1 + real_of_int n * real e) / real_of_int n)
                           (filter (\<lambda>k. int k + 1 < n) [0..<length bl])) (e # es))"
    using s1(4) s'(4) by simp
  ultimately show ?case by blast
qed

lemma epochs_append:
  "train_epochs be n dl (xs @ ys) s =
     (case train_epochs be n dl xs s of Inl e \<Rightarrow> Inl e | Inr s' \<Rightarrow> train_epochs be n dl ys s')"
  by (induction xs arbitrary: s) (auto split: sum.splits)


lemma epochs_emitted:
  assumes "train_epochs be n dl es s = Inr s'"
  shows "\<exists>new. wandb_log s' = wandb_log s @ new
             \<and> (\<forall>m\<in>set new. \<exists>e\<in>set es. real e < train_epoch m \<and> train_epoch m < real e + 1)"
  using assms
proof (induction es arbitrary: s)
  case Nil
  then show ?case by simp
next
  case (Cons e es)
  from Cons.prems obtain s1 where
    s1: "train_epoch_loop be n e (perf_counter be (ticks s)) 0 (dl_iter dl)
           (s\<lparr>ticks := ticks s + 1\<rparr>) = Inr s1"
    and rest: "train_epochs be n dl es s1 = Inr s'"
    by (auto split: sum.splits)
  from epoch_loop_emitted[OF s1] obtain new1 where new1: "wandb_log s1 = wandb_log s @ new1"
    "\<forall>m\<in>set new1. real e < train_epoch m \<and> train_epoch m < real e + 1" by auto
  from Cons.IH[OF rest] obtain new2 where new2: "wandb_log s' = wandb_log s1 @ new2"
    "\<forall>m\<in>set new2. \<exists>e\<in>set es. real e < train_epoch m \<and> train_epoch m < real e + 1" by blast
  have "wandb_log s' = wandb_log s @ (new1 @ new2)" using new1(1) new2(1) by simp
  moreover have "\<forall>m\<in>set (new1 @ new2).
      \<exists>e'\<in>set (e # es). real e' < train_epoch m \<and> train_epoch m < real e' + 1"
    using new1(2) new2(2) by auto
  ultimately show ?case by blast
qed

lemma epochs_sorted:
  assumes "train_epochs be n dl es s = Inr s'"
    and "\<And>b. Inr b \<in> set (dl_iter dl) \<Longrightarrow> b \<noteq> []"
    and "sorted_wrt (<) (map train_example_ct (wandb_log s))"
    and "\<forall>m\<in>set (wandb_log s). train_example_ct m \<le> example_ct s"
  shows "sorted_wrt (<) (map train_example_ct (wandb_log s'))
       \<and> (\<forall>m\<in>set (wandb_log s'). train_example_ct m \<le> example_ct s')"
  using assms(1,3,4)
proof (induction es arbitrary: s)
  case Nil
  then show ?case by simp
next
  case (Cons e es)
  let ?s0 = "s\<lparr>ticks := ticks s + 1\<rparr>"
  from Cons.prems(1) obtain s1 where
    s1: "train_epoch_loop be n e (perf_counter be (ticks s)) 0 (dl_iter dl) ?s0 = Inr s1"
    and rest: "train_epochs be n dl es s1 = Inr s'"
    by (auto split: sum.splits)
  have "sorted_wrt (<) (map train_example_ct (wandb_log ?s0))"
    and "\<forall>m\<in>set (wandb_log ?s0). train_example_ct m \<le> example_ct ?s0"
    using Cons.prems(2,3) by simp_all
  from epoch_loop_sorted[OF s1 assms(2) this]
  have "sorted_wrt (<) (map train_example_ct (wandb_log s1))"
    and "\<forall>m\<in>set (wandb_log s1). train_example_ct m \<le> example_ct s1"
    by simp_all
  then show ?case by (rule Cons.IH[OF rest])
qed

subsection \<open>Whole runs\<close>

lemma filter_less_upt: "filter (\<lambda>k. k < m) [0..<L] = [0..<min m L]"
proof (induction L)
  case 0
  then show ?case by simp
next
  case (Suc L)
  show ?case
  proof (cases "L < m")
    case True
    then have "min m (Suc L) = Suc L" "min m L = L" by simp_all
    then show ?thesis using Suc True by simp
  next
    case False
    then have "min m (Suc L) = m" "min m L = m" by simp_all
    then show ?thesis using Suc False by simp
  qed
qed

lemma filter_not_last: "filter (\<lambda>k. int k + 1 < int L) [0..<L] = [0..<L - 1]"
proof -
  have "(\<lambda>k. int k + 1 < int L) = (\<lambda>k. k < L - 1)" by (rule ext) linarith
  then show ?thesis by (simp add: filter_less_upt)
qed

lemma train_unfold:
  assumes "0 < batch_size cfg"
  shows "train be cfg ds m0 =
     train_epochs be (n_steps_per_epoch (len ds) (batch_size cfg))
       \<lparr>dataset = ds, dl_batch_size = nat (batch_size cfg)\<rparr>
       [0..<nat (epochs cfg)] (init_state m0)"
  using assms by (simp add: train_def get_dataloader_def)

lemma train_run:
  assumes "0 < batch_size cfg" and "\<forall>f\<in>set (files ds). labelled f"
    and "\<forall>f\<in>set (files ds). decodes ds f"
    and "strict_mono (perf_counter be)" and "E \<le> nat (epochs cfg)"
  defines "n \<equiv> n_steps_per_epoch (len ds) (batch_size cfg)"
  defines "dl \<equiv> \<lparr>dataset = ds, dl_batch_size = nat (batch_size cfg)\<rparr>"
  shows "\<exists>s. train_epochs be n dl [0..<E] (init_state m0) = Inr s
           \<and> example_ct s = E * len ds
           \<and> step_ct s = E * nat n
           \<and> map train_epoch (wandb_log s) =
               concat (map (\<lambda>e. map (\<lambda>k. (real k + 1 + real_of_int n * real e) / real_of_int n)
                                   [0..<nat n - 1]) [0..<E])
           \<and> train be cfg ds m0 = train_epochs be n dl [E..<nat (epochs cfg)] s"
proof -
  have bs: "0 < dl_batch_size dl" using assms(1) by (simp add: dl_def)
  have "\<forall>f\<in>set (files (dataset dl)). labelled f" using assms(2) by (simp add: dl_def)
  moreover have "\<forall>f\<in>set (files (dataset dl)). decodes (dataset dl) f"
    using assms(3) by (simp add: dl_def)
  ultimately have "\<exists>bl. dl_iter dl = map Inr bl \<and>
      map length bl = map length (batch_sampler (dl_batch_size dl) [0..<len (dataset dl)])"
    using dl_iter_all_labelled[OF bs] by blast
  then
  obtain bl where bl: "dl_iter dl = map Inr bl"
    "map length bl = map length (batch_sampler (nat (batch_size cfg)) [0..<len ds])"
    by (auto simp: dl_def)
  have "length bl = length (batch_sampler (nat (batch_size cfg)) [0..<len ds])"
    using bl(2) by (metis length_map)
  then have n: "n = int (length bl)"
    using n_steps_per_epoch_eq_length[OF assms(1), of "len ds"] by (simp add: n_def)
  have sum: "sum_list (map length bl) = len ds"
    using sum_list_batch_sampler[of "nat (batch_size cfg)" "[0..<len ds]"] assms(1)
    by (simp add: bl(2))
  have n0: "bl \<noteq> [] \<Longrightarrow> n \<noteq> 0" using n by simp
  from epochs_run[OF assms(4) bl(1) n0, of "[0..<E]" "init_state m0"]
  obtain s where s: "train_epochs be n dl [0..<E] (init_state m0) = Inr s"
    "example_ct s = example_ct (init_state m0) + length [0..<E] * sum_list (map length bl)"
    "step_ct s = step_ct (init_state m0) + length [0..<E] * length bl"
    "map train_epoch (wandb_log s) =
       map train_epoch (wandb_log (init_state m0)) @
       concat (map (\<lambda>e. map (\<lambda>k. (real k + 1 + real_of_int n * real e) / real_of_int n)
                           (filter (\<lambda>k. int k + 1 < n) [0..<length bl])) [0..<E])"
    by blast
  have f: "filter (\<lambda>k. int k + 1 < n) [0..<length bl] = [0..<nat n - 1]"
    using filter_not_last[of "length bl"] by (simp add: n)
  have split: "[0..<nat (epochs cfg)] = [0..<E] @ [E..<nat (epochs cfg)]"
    using assms(5) by (metis le_add_diff_inverse upt_add_eq_append zero_le)
  have "train be cfg ds m0 = train_epochs be n dl ([0..<E] @ [E..<nat (epochs cfg)]) (init_state m0)"
    using train_unfold[OF assms(1), of be ds m0] split by (simp add: n_def dl_def)
  also have "\<dots> = train_epochs be n dl [E..<nat (epochs cfg)] s"
    by (simp add: epochs_append s(1))
  finally have whole: "train be cfg ds m0 = train_epochs be n dl [E..<nat (epochs cfg)] s" .
  have "example_ct s = E * len ds" using s(2) sum by (simp add: init_state_def)
  moreover have "step_ct s = E * nat n" using s(3) n by (simp add: init_state_def)
  moreover have "map train_epoch (wandb_log s) =
      concat (map (\<lambda>e. map (\<lambda>k. (real k + 1 + real_of_int n * real e) / real_of_int n)
                          [0..<nat n - 1]) [0..<E])"
    using s(4) by (simp only: f) (simp add: init_state_def)
  ultimately show ?thesis using s(1) whole by blast
qed

subsection \<open>Concrete inputs\<close>

lemma labelled_pug: "labelled ''pug_1.jpg''"
  by (simp add: labelled_def re_match_def pat_def letters_def underscore_def
                vocab_map_def dict_of_enumerate_def vocab_def)

lemma strict_mono_real: "strict_mono (real :: nat \<Rightarrow> real)"
  by (simp add: strict_mono_def)

lemma length_concat_map_const:
  "length (concat (map (\<lambda>e. map (f e) [0..<k]) es)) = length es * k"
  by (induction es) simp_all

lemma hundred_pugs_labelled: "\<forall>f\<in>set (replicate 100 ''pug_1.jpg''). labelled f"
  using labelled_pug by simp

lemma decodes_Some_comp: "decodes \<lparr>files = fs, tfms = Some \<circ> g\<rparr> f"
  by (simp add: decodes_def)

lemma not_whole_between: "real e < x \<Longrightarrow> x < real e + 1 \<Longrightarrow> x \<notin> \<int>"
proof
  assume lo: "real e < x" and hi: "x < real e + 1" and "x \<in> \<int>"
  then obtain k :: int where k: "x = of_int k" by (auto elim: Ints_cases)
  have "real_of_int (int e) < real_of_int k" using lo k by simp
  then have "int e < k" by (simp only: of_int_less_iff)
  moreover have "real_of_int k < real_of_int (int e + 1)" using hi k by simp
  then have "k < int e + 1" by (simp only: of_int_less_iff)
  ultimately show False by simp
qed

lemma butlast_batch_sizes:
  assumes "0 < bs" and "b \<in> set (butlast (batch_sampler bs idxs))"
  shows "length b = bs"
proof -
  let ?q = "length idxs div bs" and ?r = "length idxs mod bs"
  have "length b \<in> set (butlast (map length (batch_sampler bs idxs)))"
    using assms(2) by (simp add: map_butlast[symmetric])
  then have "length b \<in> set (butlast (replicate ?q bs @ (if ?r = 0 then [] else [?r])))"
    by (simp only: map_length_batch_sampler[OF assms(1)])
  then have "length b \<in> set (replicate ?q bs)"
    by (cases "?r = 0") (auto simp: butlast_snoc dest: in_set_butlastD)
  then show ?thesis by simp
qed

section \<open>The claims\<close>

text \<open>
  C1: a run with a positive batch size over a dataset whose files all decode and have a
  label, timed by a strictly increasing clock, completes. The records it passed to
  \<^verbatim>\<open>wandb.log\<close> are, epoch after epoch, those of the steps \<open>0\<close> up to but excluding
  \<open>n - 1\<close>, where \<open>n\<close> is the number of steps per epoch: each record is identified by its
  \<^verbatim>\<open>train/epoch\<close> value. The step whose number plus one is \<open>n\<close> leaves the log
  unchanged. So \<open>n - 1\<close> records are emitted per epoch, and 6 in all for 2 epochs of 4
  steps.
\<close>

theorem metrics_emitted_except_last_batch:
  assumes "0 < batch_size cfg" and "\<forall>f\<in>set (files ds). labelled f"
    and "\<forall>f\<in>set (files ds). decodes ds f"
    and "strict_mono (perf_counter be)"
  shows "let n = n_steps_per_epoch (len ds) (batch_size cfg) in
         (\<exists>s. train be cfg ds m0 = Inr s
            \<and> map train_epoch (wandb_log s) =
                concat (map (\<lambda>e. map (\<lambda>k. (real k + 1 + real_of_int n * real e) / real_of_int n)
                                    [0..<nat n - 1]) [0..<nat (epochs cfg)])
            \<and> length (wandb_log s) = nat (epochs cfg) * (nat n - 1)
            \<and> (epochs cfg = 2 \<and> n = 4 \<longrightarrow> length (wandb_log s) = 6))
       \<and> (\<forall>e t0 step batch s s'.
            train_batch be n e t0 step batch s = Inr s' \<and> int step + 1 = n \<longrightarrow>
            wandb_log s' = wandb_log s)"
proof -
  define n where "n = n_steps_per_epoch (len ds) (batch_size cfg)"
  define E where "E = nat (epochs cfg)"
  from train_run[OF assms order_refl, of m0]
  obtain s where s: "train be cfg ds m0 =
        train_epochs be n \<lparr>dataset = ds, dl_batch_size = nat (batch_size cfg)\<rparr> [E..<E] s"
    "map train_epoch (wandb_log s) =
       concat (map (\<lambda>e. map (\<lambda>k. (real k + 1 + real_of_int n * real e) / real_of_int n)
                           [0..<nat n - 1]) [0..<E])"
    unfolding n_def E_def by blast
  have run: "train be cfg ds m0 = Inr s" using s(1) by simp
  have "length (wandb_log s) = length (map train_epoch (wandb_log s))" by simp
  also have "\<dots> = E * (nat n - 1)"
    by (simp only: s(2) length_concat_map_const) simp
  finally have len: "length (wandb_log s) = E * (nat n - 1)" .
  have six: "length (wandb_log s) = 6" if "epochs cfg = 2" "n = 4"
    using len that by (simp add: E_def)
  have last: "wandb_log s' = wandb_log s0"
    if "train_batch be n e t0 step batch s0 = Inr s'" "int step + 1 = n"
    for e t0 step batch and s0 s' :: "'b run_state"
    using train_batch_Inr(5)[OF that(1)] that(2) by simp
  show ?thesis
    unfolding Let_def n_def[symmetric] E_def[symmetric]
    using run s(2) len six last by blast
qed

theorem metrics_emitted_except_last_batch_witness:
  "(0::int) < batch_size \<lparr>batch_size = 32, epochs = 2\<rparr>
   \<and> list_all labelled (files \<lparr>files = replicate 100 ''pug_1.jpg'', tfms = Some \<circ> length\<rparr>)
   \<and> list_all (decodes \<lparr>files = replicate 100 ''pug_1.jpg'', tfms = Some \<circ> length\<rparr>)
        (files \<lparr>files = replicate 100 ''pug_1.jpg'', tfms = Some \<circ> length\<rparr>)
   \<and> strict_mono (perf_counter
         \<lparr>perf_counter = real, optimize = (\<lambda>(m::unit) (b::(nat \<times> nat) list). (0::real, m))\<rparr>)
   \<and> (\<exists>s. train \<lparr>perf_counter = real, optimize = (\<lambda>m b. (0, m))\<rparr>
              \<lparr>batch_size = 32, epochs = 2\<rparr>
              \<lparr>files = replicate 100 ''pug_1.jpg'', tfms = Some \<circ> length\<rparr> () = Inr s
          \<and> length (wandb_log s) = 6)"
proof -
  let ?cfg = "\<lparr>batch_size = 32, epochs = 2\<rparr>"
  let ?ds = "\<lparr>files = replicate 100 ''pug_1.jpg'', tfms = Some \<circ> length\<rparr>"
  let ?be = "\<lparr>perf_counter = real, optimize = (\<lambda>(m::unit) (b::(nat \<times> nat) list). (0::real, m))\<rparr>"
  have h1: "0 < batch_size ?cfg" by simp
  have h2: "\<forall>f\<in>set (files ?ds). labelled f" using hundred_pugs_labelled by simp
  have hd: "\<forall>f\<in>set (files ?ds). decodes ?ds f" by (simp add: decodes_Some_comp)
  have h3: "strict_mono (perf_counter ?be)" using strict_mono_real by simp
  have n: "n_steps_per_epoch (len ?ds) (batch_size ?cfg) = 4"
    by (simp add: n_steps_per_epoch_def len_def)
  have "\<exists>s. train ?be ?cfg ?ds () = Inr s \<and> length (wandb_log s) = 6"
    using metrics_emitted_except_last_batch[OF h1 h2 hd h3, of "()"]
    unfolding Let_def n by auto
  with h1 h2 hd h3 show ?thesis by (simp only: list_all_iff)
qed

text \<open>
  C2, as the specification states it: the label key is the leading token of the file name
  made of letters and underscores only. The pattern does not extract that token. On
  \<^verbatim>\<open>Abyssinian_1.jpg\<close> the token of letters and underscores is \<^verbatim>\<open>Abyssinian_\<close>, and the
  pattern yields \<^verbatim>\<open>Abyssinian\<close>; on \<^verbatim>\<open>a.jpg\<close> there is a leading token of letters, and the
  pattern does not match at all.
\<close>

theorem label_token_counterexample:
  "spec_leading_token ''Abyssinian_1.jpg'' = ''Abyssinian_''
   \<and> re_match pat ''Abyssinian_1.jpg'' = Some ''Abyssinian''
   \<and> re_match pat ''Abyssinian_1.jpg'' \<noteq> Some (spec_leading_token ''Abyssinian_1.jpg'')
   \<and> spec_leading_token ''a.jpg'' = ''a''
   \<and> re_match pat ''a.jpg'' = None"
  by (simp add: spec_leading_token_def re_match_def pat_def letters_def underscore_def)

text \<open>
  C2, amended: for the file name \<open>fn\<close> at an index \<open>i\<close> of the dataset, the pattern yields
  at most one token, determined by \<open>fn\<close>. With \<open>l1\<close> the leading run of letters, \<open>u\<close> the
  run of underscores after it and \<open>l2\<close> the run of letters after that, the token is
  \<open>l1 @ u @ l2\<close> when all three are non-empty, and otherwise \<open>l1\<close> when it has at least two
  letters; in every other case there is no match. A token is a prefix of the file name of
  length at least two, made of letters and underscores only, and it starts and ends with a
  letter. Without a match \<^verbatim>\<open>__getitem__\<close> fails, with \<^verbatim>\<open>TypeError\<close> when the file
  decodes; this is the case in particular when the file name starts with neither a letter
  nor an underscore.
\<close>

theorem label_extraction_rule:
  assumes "i < len ds" and "files ds ! i = fn"
  shows "re_match pat fn =
           (let l1 = takeWhile (in_cset letters) fn;
                r1 = dropWhile (in_cset letters) fn;
                u = takeWhile (in_cset underscore) r1;
                l2 = takeWhile (in_cset letters) (dropWhile (in_cset underscore) r1)
            in if l1 \<noteq> [] \<and> u \<noteq> [] \<and> l2 \<noteq> [] then Some (l1 @ u @ l2)
               else if 2 \<le> length l1 then Some l1
               else None)
       \<and> (\<forall>t. re_match pat fn = Some t \<longrightarrow>
              (\<exists>rest. fn = t @ rest) \<and> 2 \<le> length t
              \<and> (\<forall>c\<in>set t. in_cset letters c \<or> c = CHR ''_'')
              \<and> in_cset letters (hd t) \<and> in_cset letters (last t))
       \<and> (re_match pat fn = None \<longrightarrow>
            isl (getitem ds (int i))
            \<and> (decodes ds fn \<longrightarrow> getitem ds (int i) = Inl TypeError))
       \<and> (spec_leading_token fn = [] \<longrightarrow>
            isl (getitem ds (int i))
            \<and> (decodes ds fn \<longrightarrow> getitem ds (int i) = Inl TypeError))"
proof -
  have none: "isl (getitem ds (int i))
              \<and> (decodes ds fn \<longrightarrow> getitem ds (int i) = Inl TypeError)"
    if "re_match pat fn = None"
    using that assms
    by (auto simp: getitem_in_range decodes_def split: option.splits)
  have "spec_leading_token fn = [] \<longrightarrow>
          isl (getitem ds (int i))
          \<and> (decodes ds fn \<longrightarrow> getitem ds (int i) = Inl TypeError)"
  proof
    assume "spec_leading_token fn = []"
    then have "re_match pat fn = None" by (rule re_match_pat_needs_letter)
    then show "isl (getitem ds (int i))
               \<and> (decodes ds fn \<longrightarrow> getitem ds (int i) = Inl TypeError)" by (rule none)
  qed
  moreover have "\<forall>t. re_match pat fn = Some t \<longrightarrow>
              (\<exists>rest. fn = t @ rest) \<and> 2 \<le> length t
              \<and> (\<forall>c\<in>set t. in_cset letters c \<or> c = CHR ''_'')
              \<and> in_cset letters (hd t) \<and> in_cset letters (last t)"
    using re_match_pat_shape by blast
  ultimately show ?thesis using none re_match_pat_closed_form[of fn] by blast
qed

theorem label_extraction_rule_witness:
  "(0::nat) < len \<lparr>files = [''american_pit_bull_terrier_12.jpg'', ''1.jpg''], tfms = Some \<circ> length\<rparr>
   \<and> re_match pat ''american_pit_bull_terrier_12.jpg'' = Some ''american_pit''
   \<and> getitem \<lparr>files = [''american_pit_bull_terrier_12.jpg'', ''1.jpg''], tfms = Some \<circ> length\<rparr> (int 1)
       = Inl TypeError"
proof -
  let ?ds = "\<lparr>files = [''american_pit_bull_terrier_12.jpg'', ''1.jpg''], tfms = Some \<circ> length\<rparr>"
  have h0: "0 < len ?ds" and h1: "1 < len ?ds" by (simp_all add: len_def)
  have f0: "files ?ds ! 0 = ''american_pit_bull_terrier_12.jpg''"
    and f1: "files ?ds ! 1 = ''1.jpg''" by simp_all
  have r0: "re_match pat ''american_pit_bull_terrier_12.jpg'' = Some ''american_pit''"
    using label_extraction_rule[OF h0 f0] by (simp add: letters_def underscore_def)
  have t1: "spec_leading_token ''1.jpg'' = []"
    by (simp add: spec_leading_token_def letters_def)
  have d1: "decodes ?ds ''1.jpg''" by (rule decodes_Some_comp)
  have r1: "getitem ?ds (int 1) = Inl TypeError"
    using label_extraction_rule[OF h1 f1] t1 d1 by blast
  from h0 r0 r1 show ?thesis by (intro conjI)
qed

text \<open>
  C3: for an index \<open>i\<close> below the size of the dataset whose file decodes and whose name
  matches the pattern with a token \<open>key\<close> of the vocabulary, \<^verbatim>\<open>__getitem__\<close> returns the
  transformed image together with the one position \<open>k\<close> of \<open>key\<close> in \<open>vocab\<close>; the vocabulary has 37
  distinct names, and the dictionary maps them one-to-one onto the indices below 37.
\<close>

theorem getitem_class_index:
  assumes "i < len ds" and "re_match pat (files ds ! i) = Some key" and "key \<in> set vocab"
    and "tfms ds (files ds ! i) = Some img"
  shows "(\<exists>k<37. getitem ds (int i) = Inr (img, k) \<and> vocab ! k = key
              \<and> (\<forall>j<37. vocab ! j = key \<longrightarrow> j = k))
       \<and> length vocab = 37 \<and> distinct vocab
       \<and> bij_betw (\<lambda>v. the (vocab_map v)) (set vocab) {0..<37}"
proof -
  from assms(3) obtain k where k: "k < length vocab" "vocab ! k = key"
    by (auto simp: in_set_conv_nth)
  then have k37: "k < 37" by (simp add: length_vocab)
  then have vm: "vocab_map key = Some k" using k(2) by (simp add: vocab_map_iff)
  have get: "getitem ds (int i) = Inr (img, k)"
    using assms(1,2,4) vm by (simp add: getitem_in_range)
  have uniq: "\<forall>j<37. vocab ! j = key \<longrightarrow> j = k"
  proof (intro allI impI)
    fix j :: nat assume "j < 37" "vocab ! j = key"
    then have "vocab_map key = Some j" by (simp add: vocab_map_iff)
    then show "j = k" using vm by simp
  qed
  show ?thesis
    using k37 get k(2) uniq length_vocab distinct_vocab vocab_map_bij by blast
qed

theorem getitem_class_index_witness:
  "(1::nat) < len \<lparr>files = [''Abyssinian_1.jpg'', ''beagle_32.jpg''], tfms = Some \<circ> length\<rparr>
   \<and> re_match pat ''beagle_32.jpg'' = Some ''beagle''
   \<and> ''beagle'' \<in> set vocab
   \<and> tfms \<lparr>files = [''Abyssinian_1.jpg'', ''beagle_32.jpg''], tfms = Some \<circ> length\<rparr>
        ''beagle_32.jpg'' = Some 13
   \<and> getitem \<lparr>files = [''Abyssinian_1.jpg'', ''beagle_32.jpg''], tfms = Some \<circ> length\<rparr> (int 1)
       = Inr (13, 15)"
proof -
  let ?ds = "\<lparr>files = [''Abyssinian_1.jpg'', ''beagle_32.jpg''], tfms = Some \<circ> length\<rparr>"
  have h1: "1 < len ?ds" by (simp add: len_def)
  have h2: "re_match pat (files ?ds ! 1) = Some ''beagle''"
    by (simp add: re_match_def pat_def letters_def underscore_def)
  have h3: "''beagle'' \<in> set vocab" by (simp add: vocab_def)
  have v: "vocab ! 15 = ''beagle''" by (simp add: vocab_def)
  have h4: "tfms ?ds (files ?ds ! 1) = Some 13" by simp
  from getitem_class_index[OF h1 h2 h3 h4]
  obtain k where k: "k < 37" "getitem ?ds (int 1) = Inr (13, k)"
    "vocab ! k = ''beagle''" "\<forall>j<37. vocab ! j = ''beagle'' \<longrightarrow> j = k"
    by blast
  have "k = 15" using k(4)[rule_format, of 15] v by simp
  then have "getitem ?ds (int 1) = Inr (13, 15)" using k(2) by simp
  then show ?thesis using h1 h2 h3 h4 by simp
qed




text \<open>
  C5: with two files, batch size 1 and two epochs, the clock showing 0, 1, 2, \<dots> seconds at
  its successive readings, the first batch of the second epoch is the only one processed
  between the epoch's start (reading 5) and the end of its step (reading 7): one example
  in two seconds. The record emitted for it carries \<^verbatim>\<open>samples_per_sec_epoch\<close> \<open>= 3/2\<close>,
  the count of all examples since the start of the run divided by the time since the
  start of the epoch.
\<close>

theorem samples_per_sec_epoch_second_epoch:
  "train \<lparr>perf_counter = real, optimize = (\<lambda>m b. (0, m))\<rparr>
         \<lparr>batch_size = 1, epochs = 2\<rparr>
         \<lparr>files = [''pug_1.jpg'', ''pug_2.jpg''], tfms = Some \<circ> length\<rparr> ()
   = Inr \<lparr>example_ct = 4, step_ct = 4, model = (), ticks = 10,
          wandb_log = [\<lparr>train_loss = 0, train_epoch = 1/2, train_example_ct = 1,
                        samples_per_sec = 1, samples_per_sec_epoch = 1/2\<rparr>,
                       \<lparr>train_loss = 0, train_epoch = 3/2, train_example_ct = 3,
                        samples_per_sec = 1, samples_per_sec_epoch = 3/2\<rparr>]\<rparr>"
  by code_simp

text \<open>
  C6: for a positive batch size the loader is built, and \<^verbatim>\<open>train\<close> computes
  \<open>n = ceil(dataset size / batch size)\<close> once and hands the same \<open>n\<close> to every epoch. \<open>n\<close> is
  the number of batches of an epoch. The batches are fetched for consecutive runs of
  indices that together are \<open>0, \<dots>, size - 1\<close>, each index once; every run but the last has
  exactly the batch size, and the last is non-empty and no larger. A batch that is fetched
  holds the samples of its indices, in order, and a batch that fails does so with the error
  of one of its indices. When every file decodes and has a label, all batches of the epoch
  are produced, with the sizes of their index runs, and put end to end they are the samples
  of the indices \<open>0, \<dots>, size - 1\<close>, each once, so that their sizes add up to the size of the
  dataset. For 100 files and batch size 32 there are 4 batches, of sizes 32, 32, 32 and 4.
\<close>

theorem steps_per_epoch_and_batches:
  assumes "0 < batch_size cfg"
  shows "let bsz = batch_size cfg;
             dl = \<lparr>dataset = ds, dl_batch_size = nat bsz\<rparr>;
             bt = batch_sampler (nat bsz) [0..<len ds];
             n = n_steps_per_epoch (len ds) bsz
         in get_dataloader ds bsz = Inr dl
          \<and> train be cfg ds m0 = train_epochs be n dl [0..<nat (epochs cfg)] (init_state m0)
          \<and> n = \<lceil>real (len ds) / real_of_int bsz\<rceil>
          \<and> n = int (length bt)
          \<and> n = int (length (dl_iter dl))
          \<and> dl_iter dl = map (fetch ds) bt
          \<and> concat bt = [0..<len ds]
          \<and> sum_list (map length bt) = len ds
          \<and> (\<forall>b\<in>set (butlast bt). length b = nat bsz)
          \<and> (\<forall>b\<in>set bt. 0 < length b \<and> length b \<le> nat bsz)
          \<and> (\<forall>idxs b. fetch ds idxs = Inr b \<longrightarrow>
                length b = length idxs
                \<and> map Inr b = map (\<lambda>i. getitem ds (int i)) idxs)
          \<and> (\<forall>idxs e. fetch ds idxs = Inl e \<longrightarrow>
                (\<exists>i\<in>set idxs. getitem ds (int i) = Inl e))
          \<and> ((\<forall>f\<in>set (files ds). labelled f \<and> decodes ds f) \<longrightarrow>
                (\<exists>bl. dl_iter dl = map Inr bl
                    \<and> map length bl = map length bt
                    \<and> map Inr (concat bl) = map (\<lambda>i. getitem ds (int i)) [0..<len ds]
                    \<and> sum_list (map length bl) = len ds
                    \<and> (\<forall>b\<in>set (butlast bl). length b = nat bsz)
                    \<and> (\<forall>b\<in>set bl. 0 < length b \<and> length b \<le> nat bsz)
                    \<and> (len ds = 100 \<and> bsz = 32 \<longrightarrow>
                          map length bl = [32, 32, 32, 4] \<and> length (last bl) = 4)))
          \<and> (len ds = 100 \<and> bsz = 32 \<longrightarrow> n = 4 \<and> map length bt = [32, 32, 32, 4])"
proof -
  define bsz where "bsz = batch_size cfg"
  define dl where "dl = \<lparr>dataset = ds, dl_batch_size = nat bsz\<rparr>"
  define bt where "bt = batch_sampler (nat bsz) [0..<len ds]"
  define n where "n = n_steps_per_epoch (len ds) bsz"
  have pos: "0 < bsz" "0 < nat bsz" using assms by (simp_all add: bsz_def)
  have 1: "get_dataloader ds bsz = Inr dl"
    using pos by (simp add: get_dataloader_def dl_def)
  have 2: "train be cfg ds m0 = train_epochs be n dl [0..<nat (epochs cfg)] (init_state m0)"
    using train_unfold[OF assms] by (simp add: n_def dl_def bsz_def)
  have 3: "n = \<lceil>real (len ds) / real_of_int bsz\<rceil>"
    by (simp add: n_def n_steps_per_epoch_def)
  have 4: "n = int (length bt)"
    unfolding n_def bt_def using pos(1) by (rule n_steps_per_epoch_eq_length)
  have 5: "dl_iter dl = map (fetch ds) bt"
    by (simp add: dl_iter_def dl_def bt_def)
  have 14: "n = int (length (dl_iter dl))" using 4 5 by simp
  have 6: "concat bt = [0..<len ds]"
    unfolding bt_def using pos(2) by (rule concat_batch_sampler)
  have 7: "sum_list (map length bt) = len ds"
    unfolding bt_def using sum_list_batch_sampler[OF pos(2), of "[0..<len ds]"] by simp
  have 8: "\<forall>b\<in>set (butlast bt). length b = nat bsz"
    unfolding bt_def using butlast_batch_sizes[OF pos(2)] by blast
  have 9: "\<forall>b\<in>set bt. 0 < length b \<and> length b \<le> nat bsz"
    unfolding bt_def using batch_sampler_sizes[OF pos(2)] by blast
  have 10: "n = 4 \<and> map length bt = [32, 32, 32, 4]" if "len ds = 100" "bsz = 32"
  proof
    show "n = 4" using that by (simp add: n_def n_steps_per_epoch_def)
    have "map length (batch_sampler 32 [0..<100]) = [32, 32, 32, 4]"
      by (simp add: map_length_batch_sampler numeral_3_eq_3)
    then show "map length bt = [32, 32, 32, 4]" using that by (simp add: bt_def)
  qed
  have 11: "\<forall>idxs b. fetch ds idxs = Inr b \<longrightarrow>
                length b = length idxs \<and> map Inr b = map (\<lambda>i. getitem ds (int i)) idxs"
    using fetch_length fetch_items by blast
  have 12: "\<forall>idxs e. fetch ds idxs = Inl e \<longrightarrow> (\<exists>i\<in>set idxs. getitem ds (int i) = Inl e)"
    using fetch_error by blast
  have 13: "\<exists>bl. dl_iter dl = map Inr bl
                \<and> map length bl = map length bt
                \<and> map Inr (concat bl) = map (\<lambda>i. getitem ds (int i)) [0..<len ds]
                \<and> sum_list (map length bl) = len ds
                \<and> (\<forall>b\<in>set (butlast bl). length b = nat bsz)
                \<and> (\<forall>b\<in>set bl. 0 < length b \<and> length b \<le> nat bsz)
                \<and> (len ds = 100 \<and> bsz = 32 \<longrightarrow>
                      map length bl = [32, 32, 32, 4] \<and> length (last bl) = 4)"
    if ok: "\<forall>f\<in>set (files ds). labelled f \<and> decodes ds f"
  proof -
    have bs: "0 < dl_batch_size dl" using pos(2) by (simp add: dl_def)
    have l: "\<forall>f\<in>set (files (dataset dl)). labelled f"
      and d: "\<forall>f\<in>set (files (dataset dl)). decodes (dataset dl) f"
      using ok by (simp_all add: dl_def)
    from dl_iter_all_labelled[OF bs l d]
    obtain bl where bl: "dl_iter dl = map Inr bl" "map length bl = map length bt"
      "map Inr (concat bl) = map (\<lambda>i. getitem ds (int i)) [0..<len ds]"
      by (auto simp: dl_def bt_def)
    have s: "sum_list (map length bl) = len ds" using 7 by (simp only: bl(2))
    have sizes: "\<forall>b\<in>set bl. 0 < length b \<and> length b \<le> nat bsz"
    proof
      fix b assume "b \<in> set bl"
      then have "length b \<in> set (map length bt)" by (simp only: bl(2)[symmetric]) simp
      then show "0 < length b \<and> length b \<le> nat bsz" using 9 by auto
    qed
    have full: "\<forall>b\<in>set (butlast bl). length b = nat bsz"
    proof
      fix b assume "b \<in> set (butlast bl)"
      then have "length b \<in> set (butlast (map length bl))" by (simp add: map_butlast[symmetric])
      then have "length b \<in> set (map length (butlast bt))"
        by (simp only: bl(2) map_butlast)
      then show "length b = nat bsz" using 8 by auto
    qed
    have hundred: "map length bl = [32, 32, 32, 4] \<and> length (last bl) = 4"
      if h: "len ds = 100" "bsz = 32"
    proof -
      have m: "map length bl = [32, 32, 32, 4]" using 10[OF h] bl(2) by simp
      then have "bl \<noteq> []" by auto
      then have "length (last bl) = last (map length bl)" by (simp add: last_map)
      then show ?thesis using m by simp
    qed
    have hundred': "len ds = 100 \<and> bsz = 32 \<longrightarrow>
                      map length bl = [32, 32, 32, 4] \<and> length (last bl) = 4"
      using hundred by blast
    show ?thesis
      using bl s full sizes hundred' by (intro exI[of _ bl] conjI)
  qed
  have 15: "(\<forall>f\<in>set (files ds). labelled f \<and> decodes ds f) \<longrightarrow>
                (\<exists>bl. dl_iter dl = map Inr bl
                    \<and> map length bl = map length bt
                    \<and> map Inr (concat bl) = map (\<lambda>i. getitem ds (int i)) [0..<len ds]
                    \<and> sum_list (map length bl) = len ds
                    \<and> (\<forall>b\<in>set (butlast bl). length b = nat bsz)
                    \<and> (\<forall>b\<in>set bl. 0 < length b \<and> length b \<le> nat bsz)
                    \<and> (len ds = 100 \<and> bsz = 32 \<longrightarrow>
                          map length bl = [32, 32, 32, 4] \<and> length (last bl) = 4))"
    using 13 by (rule impI)
  have 16: "len ds = 100 \<and> bsz = 32 \<longrightarrow> n = 4 \<and> map length bt = [32, 32, 32, 4]"
    using 10 by blast
  show ?thesis
    unfolding Let_def bsz_def[symmetric] dl_def[symmetric] bt_def[symmetric] n_def[symmetric]
    using 1 2 3 4 14 5 6 7 8 9 11 12 15 16 by (intro conjI)
qed

theorem steps_per_epoch_and_batches_witness:
  "(0::int) < batch_size \<lparr>batch_size = 32, epochs = 1\<rparr>
   \<and> n_steps_per_epoch (len \<lparr>files = replicate 100 ''pug_1.jpg'', tfms = Some \<circ> length\<rparr>) 32 = 4
   \<and> map length (batch_sampler 32 [0..<100]) = [32, 32, 32, 4]
   \<and> (\<exists>bl. dl_iter \<lparr>dataset = \<lparr>files = replicate 100 ''pug_1.jpg'', tfms = Some \<circ> length\<rparr>,
                      dl_batch_size = 32\<rparr> = map Inr bl
          \<and> map length bl = [32, 32, 32, 4]
          \<and> length (last bl) = 4
          \<and> sum_list (map length bl) = 100)"
proof -
  let ?cfg = "\<lparr>batch_size = 32, epochs = 1\<rparr>"
  let ?ds = "\<lparr>files = replicate 100 ''pug_1.jpg'', tfms = Some \<circ> length\<rparr>"
  let ?be = "\<lparr>perf_counter = real, optimize = (\<lambda>(m::unit) (b::(nat \<times> nat) list). (0::real, m))\<rparr>"
  have h: "0 < batch_size ?cfg" by simp
  have l: "len ?ds = 100" by (simp add: len_def)
  have ok: "\<forall>f\<in>set (files ?ds). labelled f \<and> decodes ?ds f"
    using hundred_pugs_labelled by (simp add: decodes_Some_comp)
  note inst = steps_per_epoch_and_batches[OF h, of ?ds ?be "()", unfolded Let_def]
  have a: "len ?ds = 100 \<and> batch_size ?cfg = 32 \<longrightarrow>
           n_steps_per_epoch (len ?ds) (batch_size ?cfg) = 4
           \<and> map length (batch_sampler (nat (batch_size ?cfg)) [0..<len ?ds]) = [32, 32, 32, 4]"
    using inst by (elim conjE)
  let ?dl = "\<lparr>dataset = ?ds, dl_batch_size = nat (batch_size ?cfg)\<rparr>"
  let ?bt = "batch_sampler (nat (batch_size ?cfg)) [0..<len ?ds]"
  let ?Q = "\<lambda>bl. dl_iter ?dl = map Inr bl
           \<and> map length bl = map length ?bt
           \<and> map Inr (concat bl) = map (\<lambda>i. getitem ?ds (int i)) [0..<len ?ds]
           \<and> sum_list (map length bl) = len ?ds
           \<and> (\<forall>b\<in>set (butlast bl). length b = nat (batch_size ?cfg))
           \<and> (\<forall>b\<in>set bl. 0 < length b \<and> length b \<le> nat (batch_size ?cfg))
           \<and> (len ?ds = 100 \<and> batch_size ?cfg = 32 \<longrightarrow>
                 map length bl = [32, 32, 32, 4] \<and> length (last bl) = 4)"
  have imp: "(\<forall>f\<in>set (files ?ds). labelled f \<and> decodes ?ds f) \<longrightarrow> (\<exists>bl. ?Q bl)"
    using inst by (elim conjE)
  have c32: "batch_size ?cfg = 32" by simp
  from imp ok have "\<exists>bl. ?Q bl" by (rule mp)
  then obtain bl where q: "?Q bl" by (rule exE)
  have b1: "dl_iter ?dl = map Inr bl" using q by (elim conjE)
  have b4: "sum_list (map length bl) = len ?ds" using q by (elim conjE)
  have b7: "len ?ds = 100 \<and> batch_size ?cfg = 32 \<longrightarrow>
              map length bl = [32, 32, 32, 4] \<and> length (last bl) = 4"
    using q by (elim conjE)
  have m: "map length bl = [32, 32, 32, 4]" and la: "length (last bl) = 4"
    using b7 l c32 by blast+
  have n32: "nat (batch_size ?cfg) = 32" by simp
  have b1': "dl_iter \<lparr>dataset = ?ds, dl_batch_size = 32\<rparr> = map Inr bl"
    using b1 by (simp only: n32)
  have b4': "sum_list (map length bl) = 100" using b4 by (simp only: l)
  have b: "\<exists>bl. dl_iter \<lparr>dataset = ?ds, dl_batch_size = 32\<rparr> = map Inr bl
          \<and> map length bl = [32, 32, 32, 4]
          \<and> length (last bl) = 4
          \<and> sum_list (map length bl) = 100"
    using b1' m la b4' by (intro exI[of _ bl] conjI)
  have a0: "n_steps_per_epoch (len ?ds) (batch_size ?cfg) = 4"
    and a1: "map length (batch_sampler (nat (batch_size ?cfg)) [0..<len ?ds]) = [32, 32, 32, 4]"
    using a l c32 by blast+
  have a0': "n_steps_per_epoch (len ?ds) 32 = 4" using a0 by (simp only: c32)
  have a1': "map length (batch_sampler 32 [0..<100]) = [32, 32, 32, 4]"
    using a1 by (simp only: n32 l)
  from h a0' a1' b show ?thesis by (intro conjI)
qed

text \<open>
  C7: every step adds the size of its batch to \<^verbatim>\<open>example_ct\<close>. For a run with a positive
  batch size over a dataset whose files all decode and have a label, timed by a strictly
  increasing clock: the batches of an epoch are non-empty and their sizes add up to the size of the
  dataset; after \<open>e\<close> epochs, for every \<open>e\<close> up to the configured number, \<^verbatim>\<open>example_ct\<close>
  is \<open>e\<close> times the size of the dataset, and the rest of the run continues from that state;
  the run completes, and the \<^verbatim>\<open>train/example_ct\<close> values it logged are strictly
  increasing. The value after \<open>e\<close> epochs does not depend on the batch size dividing the
  size of the dataset.
\<close>

theorem example_ct_accounting:
  assumes "0 < batch_size cfg" and "\<forall>f\<in>set (files ds). labelled f"
    and "\<forall>f\<in>set (files ds). decodes ds f"
    and "strict_mono (perf_counter be)" and "e \<le> nat (epochs cfg)"
  shows "let n = n_steps_per_epoch (len ds) (batch_size cfg);
             dl = \<lparr>dataset = ds, dl_batch_size = nat (batch_size cfg)\<rparr>
         in (\<forall>k t0 step batch s s'.
               train_batch be n k t0 step batch s = Inr s' \<longrightarrow>
               example_ct s' = example_ct s + length batch)
          \<and> (\<exists>bl. dl_iter dl = map Inr bl \<and> (\<forall>b\<in>set bl. 0 < length b)
                  \<and> sum_list (map length bl) = len ds)
          \<and> example_ct (init_state m0) = 0
          \<and> (\<exists>s. train_epochs be n dl [0..<e] (init_state m0) = Inr s
                 \<and> example_ct s = e * len ds
                 \<and> train be cfg ds m0 = train_epochs be n dl [e..<nat (epochs cfg)] s)
          \<and> (\<exists>s. train be cfg ds m0 = Inr s
                 \<and> example_ct s = nat (epochs cfg) * len ds
                 \<and> sorted_wrt (<) (map train_example_ct (wandb_log s)))"
proof -
  define n where "n = n_steps_per_epoch (len ds) (batch_size cfg)"
  define dl where "dl = \<lparr>dataset = ds, dl_batch_size = nat (batch_size cfg)\<rparr>"
  have bs: "0 < dl_batch_size dl" using assms(1) by (simp add: dl_def)
  have step: "example_ct s' = example_ct s + length batch"
    if "train_batch be n k t0 step batch s = Inr s'"
    for k t0 step batch and s s' :: "'b run_state"
    using that by (rule train_batch_Inr(1))
  have l: "\<forall>f\<in>set (files (dataset dl)). labelled f"
    and d: "\<forall>f\<in>set (files (dataset dl)). decodes (dataset dl) f"
    using assms(2,3) by (simp_all add: dl_def)
  from dl_iter_all_labelled[OF bs l d]
  obtain bl where bl: "dl_iter dl = map Inr bl"
    "map length bl = map length (batch_sampler (nat (batch_size cfg)) [0..<len ds])"
    by (auto simp: dl_def)
  have nonempty: "b \<noteq> []" if "Inr b \<in> set (dl_iter dl)" for b
    using dl_iter_nonempty_batches[OF bs that] .
  have pos: "\<forall>b\<in>set bl. 0 < length b"
  proof
    fix b assume "b \<in> set bl"
    then have "Inr b \<in> set (dl_iter dl)" by (simp add: bl(1))
    then show "0 < length b" using nonempty by auto
  qed
  have sum: "sum_list (map length bl) = len ds"
    using sum_list_batch_sampler[of "nat (batch_size cfg)" "[0..<len ds]"] assms(1)
    by (simp add: bl(2))
  from train_run[OF assms, of m0]
  obtain s where s: "train_epochs be n dl [0..<e] (init_state m0) = Inr s"
    "example_ct s = e * len ds"
    "train be cfg ds m0 = train_epochs be n dl [e..<nat (epochs cfg)] s"
    unfolding n_def dl_def by blast
  from train_run[OF assms(1,2,3,4) order_refl, of m0]
  obtain r where r: "train_epochs be n dl [0..<nat (epochs cfg)] (init_state m0) = Inr r"
    "example_ct r = nat (epochs cfg) * len ds"
    "train be cfg ds m0 = train_epochs be n dl [nat (epochs cfg)..<nat (epochs cfg)] r"
    unfolding n_def dl_def by blast
  have run: "train be cfg ds m0 = Inr r" using r(3) by simp
  have "sorted_wrt (<) (map train_example_ct (wandb_log (init_state m0)))"
    and "\<forall>m\<in>set (wandb_log (init_state m0)). train_example_ct m \<le> example_ct (init_state m0)"
    by (simp_all add: init_state_def)
  from epochs_sorted[OF r(1) nonempty this]
  have sorted: "sorted_wrt (<) (map train_example_ct (wandb_log r))" by simp
  have init: "example_ct (init_state m0) = 0" by (simp add: init_state_def)
  show ?thesis
    unfolding Let_def n_def[symmetric] dl_def[symmetric]
    using step bl(1) pos sum init s run r(2) sorted by blast
qed

theorem example_ct_accounting_witness:
  "(0::int) < batch_size \<lparr>batch_size = 25, epochs = 3\<rparr>
   \<and> list_all labelled (files \<lparr>files = replicate 100 ''pug_1.jpg'', tfms = Some \<circ> length\<rparr>)
   \<and> list_all (decodes \<lparr>files = replicate 100 ''pug_1.jpg'', tfms = Some \<circ> length\<rparr>)
        (files \<lparr>files = replicate 100 ''pug_1.jpg'', tfms = Some \<circ> length\<rparr>)
   \<and> strict_mono (perf_counter
         \<lparr>perf_counter = real, optimize = (\<lambda>(m::unit) (b::(nat \<times> nat) list). (0::real, m))\<rparr>)
   \<and> (2::nat) \<le> nat (epochs \<lparr>batch_size = 25, epochs = 3\<rparr>)
   \<and> (\<exists>s. train_epochs \<lparr>perf_counter = real, optimize = (\<lambda>m b. (0, m))\<rparr> 4
              \<lparr>dataset = \<lparr>files = replicate 100 ''pug_1.jpg'', tfms = Some \<circ> length\<rparr>, dl_batch_size = 25\<rparr>
              [0..<2] (init_state ()) = Inr s
          \<and> example_ct s = 200)
   \<and> (\<exists>s. train \<lparr>perf_counter = real, optimize = (\<lambda>m b. (0, m))\<rparr>
              \<lparr>batch_size = 25, epochs = 3\<rparr>
              \<lparr>files = replicate 100 ''pug_1.jpg'', tfms = Some \<circ> length\<rparr> () = Inr s
          \<and> example_ct s = 300
          \<and> sorted_wrt (<) (map train_example_ct (wandb_log s)))"
proof -
  let ?cfg = "\<lparr>batch_size = 25, epochs = 3\<rparr>"
  let ?ds = "\<lparr>files = replicate 100 ''pug_1.jpg'', tfms = Some \<circ> length\<rparr>"
  let ?be = "\<lparr>perf_counter = real, optimize = (\<lambda>(m::unit) (b::(nat \<times> nat) list). (0::real, m))\<rparr>"
  have h1: "0 < batch_size ?cfg" by simp
  have h2: "\<forall>f\<in>set (files ?ds). labelled f" using hundred_pugs_labelled by simp
  have hd: "\<forall>f\<in>set (files ?ds). decodes ?ds f" by (simp add: decodes_Some_comp)
  have h3: "strict_mono (perf_counter ?be)" using strict_mono_real by simp
  have h4: "(2::nat) \<le> nat (epochs ?cfg)" by simp
  have l: "len ?ds = 100" by (simp add: len_def)
  have n': "n_steps_per_epoch 100 25 = 4" by (simp add: n_steps_per_epoch_def)
  note inst = example_ct_accounting[OF h1 h2 hd h3 h4, of "()", unfolded Let_def]
  have a: "\<exists>s. train_epochs ?be 4 \<lparr>dataset = ?ds, dl_batch_size = 25\<rparr> [0..<2] (init_state ()) = Inr s
          \<and> example_ct s = 200"
    using inst by (auto simp: l n')
  have b: "\<exists>s. train ?be ?cfg ?ds () = Inr s \<and> example_ct s = 300
          \<and> sorted_wrt (<) (map train_example_ct (wandb_log s))"
    using inst by (auto simp: l n')
  from h1 h2 hd h3 h4 a b show ?thesis by (simp only: list_all_iff)
qed

text \<open>
  C8: whenever the metrics of a step are computed, which needs a non-zero number \<open>n\<close> of
  steps per epoch and clock readings that differ, the \<^verbatim>\<open>train/epoch\<close> entry is
  \<open>(step + 1 + n * epoch) / n\<close>; this is the value in the record that a step logs. At
  epoch 0 and step 3 with \<open>n = 4\<close> the value is 1.
\<close>

theorem epoch_fraction_formula:
  assumes "n \<noteq> 0" and "tf \<noteq> ti" and "tf \<noteq> t0"
  shows "(\<exists>m. make_metrics n epoch step loss ex nimg t0 ti tf = Inr m
            \<and> train_epoch m = (real step + 1 + real_of_int n * real epoch) / real_of_int n
            \<and> (n = 4 \<and> epoch = 0 \<and> step = 3 \<longrightarrow> train_epoch m = 1))
       \<and> (\<forall>be batch s s'.
            train_batch (be :: ('a, 'm) backend) n epoch t0 step batch s = Inr s'
            \<and> int step + 1 < n \<longrightarrow>
            (\<exists>m. wandb_log s' = wandb_log s @ [m]
               \<and> train_epoch m = (real step + 1 + real_of_int n * real epoch) / real_of_int n))"
proof -
  obtain m where m: "make_metrics n epoch step loss ex nimg t0 ti tf = Inr m"
    using make_metrics_completes[OF assms] by blast
  have v: "train_epoch m = (real step + 1 + real_of_int n * real epoch) / real_of_int n"
    using make_metrics_Inr[OF m] by simp
  have one: "train_epoch m = 1" if "n = 4" "epoch = 0" "step = 3"
    using v that by simp
  have logged: "\<exists>m. wandb_log s' = wandb_log s @ [m]
       \<and> train_epoch m = (real step + 1 + real_of_int n * real epoch) / real_of_int n"
    if "train_batch be n epoch t0 step batch s = Inr s'" "int step + 1 < n"
    for be :: "('a, 'm) backend" and batch s s'
    using train_batch_Inr(4)[OF that] by blast
  show ?thesis using m v one logged by blast
qed

theorem epoch_fraction_formula_witness:
  "(4::int) \<noteq> 0 \<and> (2::real) \<noteq> 1 \<and> (2::real) \<noteq> 0
   \<and> (\<exists>m. make_metrics 4 0 3 (1/2) 100 4 0 1 2 = Inr m \<and> train_epoch m = 1)"
proof -
  have h1: "(4::int) \<noteq> 0" and h2: "(2::real) \<noteq> 1" and h3: "(2::real) \<noteq> 0" by simp_all
  have "\<exists>m. make_metrics 4 0 3 (1/2) 100 4 0 1 2 = Inr m \<and> train_epoch m = 1"
    using epoch_fraction_formula[OF h1 h2 h3, of 0 3 "1/2" 100 4] by auto
  with h1 h2 h3 show ?thesis by (intro conjI)
qed

text \<open>
  C9: the records that the inner loop of epoch \<open>e\<close> adds to the log all carry a
  \<^verbatim>\<open>train/epoch\<close> value strictly between \<open>e\<close> and \<open>e + 1\<close>, for any number of steps per
  epoch, any batches and any starting step and state; such a value is not a whole number.
  Hence no record logged by a completed run carries a whole-number \<^verbatim>\<open>train/epoch\<close>.
\<close>

theorem emitted_epoch_fraction_below_boundary:
  assumes "train_epoch_loop be n e t0 step bs s = Inr s'"
  shows "(\<exists>new. wandb_log s' = wandb_log s @ new
             \<and> (\<forall>m\<in>set new. train_epoch m < real e + 1 \<and> real e < train_epoch m
                            \<and> train_epoch m \<notin> \<int>))
       \<and> (\<forall>cfg ds m0 r. train be cfg ds m0 = Inr r \<longrightarrow>
             (\<forall>m\<in>set (wandb_log r).
                (\<exists>k<nat (epochs cfg). train_epoch m < real k + 1 \<and> real k < train_epoch m)
                \<and> train_epoch m \<notin> \<int>))"
proof -
  from epoch_loop_emitted[OF assms] obtain new where new: "wandb_log s' = wandb_log s @ new"
    "\<forall>m\<in>set new. real e < train_epoch m \<and> train_epoch m < real e + 1" by blast
  have "\<forall>m\<in>set new. train_epoch m < real e + 1 \<and> real e < train_epoch m \<and> train_epoch m \<notin> \<int>"
    using new(2) not_whole_between by blast
  then have A: "\<exists>new. wandb_log s' = wandb_log s @ new
             \<and> (\<forall>m\<in>set new. train_epoch m < real e + 1 \<and> real e < train_epoch m
                            \<and> train_epoch m \<notin> \<int>)"
    using new(1) by blast
  have B: "(\<exists>k<nat (epochs cfg). train_epoch m < real k + 1 \<and> real k < train_epoch m)
           \<and> train_epoch m \<notin> \<int>"
    if run: "train be cfg ds m0 = Inr r" and m: "m \<in> set (wandb_log r)" for cfg ds m0 r m
  proof -
    have pos: "0 < batch_size cfg"
      using run by (auto simp: train_def get_dataloader_def split: if_splits)
    from run[unfolded train_unfold[OF pos]] epochs_emitted
    obtain new where new: "wandb_log r = wandb_log (init_state m0) @ new"
      "\<forall>m\<in>set new. \<exists>k\<in>set [0..<nat (epochs cfg)].
          real k < train_epoch m \<and> train_epoch m < real k + 1"
      by blast
    have "m \<in> set new" using m new(1) by (simp add: init_state_def)
    then obtain k where k: "k < nat (epochs cfg)" "real k < train_epoch m" "train_epoch m < real k + 1"
      using new(2) by auto
    then show ?thesis using not_whole_between by blast
  qed
  show ?thesis using A B by blast
qed

theorem emitted_epoch_fraction_below_boundary_witness:
  "(\<exists>s'. train_epoch_loop \<lparr>perf_counter = real, optimize = (\<lambda>m b. (0, m))\<rparr> 2 1 1 0
            [Inr [(0::nat, 0)], Inr [(0, 0)]]
            \<lparr>example_ct = 2, step_ct = 2, model = (), ticks = 2, wandb_log = []\<rparr> = Inr s'
         \<and> length (wandb_log s') = 1
         \<and> (\<forall>m\<in>set (wandb_log s'). train_epoch m < 2 \<and> 1 < train_epoch m
                                    \<and> train_epoch m \<notin> \<int>))"
proof -
  let ?be = "\<lparr>perf_counter = real, optimize = (\<lambda>(m::unit) (b::(nat \<times> nat) list). (0::real, m))\<rparr>"
  let ?s = "\<lparr>example_ct = 2, step_ct = 2, model = (), ticks = 2, wandb_log = []\<rparr>"
  let ?s' = "\<lparr>example_ct = 4, step_ct = 4, model = (), ticks = 6,
             wandb_log = [\<lparr>train_loss = 0, train_epoch = 3/2, train_example_ct = 3,
                          samples_per_sec = 1, samples_per_sec_epoch = 3/2\<rparr>]\<rparr>"
  have h: "train_epoch_loop ?be 2 1 1 0 [Inr [(0::nat, 0)], Inr [(0, 0)]] ?s = Inr ?s'"
    by code_simp
  have "\<forall>m\<in>set (wandb_log ?s'). train_epoch m < 2 \<and> 1 < train_epoch m \<and> train_epoch m \<notin> \<int>"
    using emitted_epoch_fraction_below_boundary[OF h] by auto
  then show ?thesis using h by simp
qed

text \<open>
  C10: \<^verbatim>\<open>step_ct\<close> starts at 0, and every step adds 1 to it, whether or not the step logs
  its metrics. A run with a non-negative number of epochs and a positive batch size over a
  dataset whose files all decode and have a label, timed by a strictly increasing clock,
  completes
  with \<^verbatim>\<open>step_ct\<close> equal to the number of epochs times \<open>ceil(dataset size / batch size)\<close>.
\<close>

theorem step_ct_counts_every_batch:
  assumes "0 < batch_size cfg" and "\<forall>f\<in>set (files ds). labelled f"
    and "\<forall>f\<in>set (files ds). decodes ds f"
    and "strict_mono (perf_counter be)" and "0 \<le> epochs cfg"
  shows "step_ct (init_state m0) = 0
       \<and> (\<forall>n e t0 step batch s s'.
            train_batch be n e t0 step batch s = Inr s' \<longrightarrow> step_ct s' = step_ct s + 1)
       \<and> (\<exists>s. train be cfg ds m0 = Inr s
              \<and> int (step_ct s) = epochs cfg * \<lceil>real (len ds) / real_of_int (batch_size cfg)\<rceil>)"
proof -
  define n where "n = n_steps_per_epoch (len ds) (batch_size cfg)"
  have step: "step_ct s' = step_ct s + 1"
    if "train_batch be n' e t0 step batch s = Inr s'"
    for n' e t0 step batch and s s' :: "'b run_state"
    using that by (rule train_batch_Inr(2))
  from train_run[OF assms(1,2,3,4) order_refl, of m0]
  obtain s where s: "step_ct s = nat (epochs cfg) * nat n"
    "train be cfg ds m0 = train_epochs be n
       \<lparr>dataset = ds, dl_batch_size = nat (batch_size cfg)\<rparr> [nat (epochs cfg)..<nat (epochs cfg)] s"
    unfolding n_def by blast
  have run: "train be cfg ds m0 = Inr s" using s(2) by simp
  have "0 \<le> n"
    using n_steps_per_epoch_eq_length[OF assms(1), of "len ds"] by (simp add: n_def)
  then have "int (step_ct s) = epochs cfg * n" using s(1) assms(5) by simp
  then have "int (step_ct s) = epochs cfg * \<lceil>real (len ds) / real_of_int (batch_size cfg)\<rceil>"
    by (simp add: n_def n_steps_per_epoch_def)
  moreover have "step_ct (init_state m0) = 0" by (simp add: init_state_def)
  ultimately show ?thesis using run step by blast
qed

theorem step_ct_counts_every_batch_witness:
  "(0::int) < batch_size \<lparr>batch_size = 32, epochs = 2\<rparr>
   \<and> list_all labelled (files \<lparr>files = replicate 100 ''pug_1.jpg'', tfms = Some \<circ> length\<rparr>)
   \<and> list_all (decodes \<lparr>files = replicate 100 ''pug_1.jpg'', tfms = Some \<circ> length\<rparr>)
        (files \<lparr>files = replicate 100 ''pug_1.jpg'', tfms = Some \<circ> length\<rparr>)
   \<and> strict_mono (perf_counter
         \<lparr>perf_counter = real, optimize = (\<lambda>(m::unit) (b::(nat \<times> nat) list). (0::real, m))\<rparr>)
   \<and> (0::int) \<le> epochs \<lparr>batch_size = 32, epochs = 2\<rparr>
   \<and> (\<exists>s. train \<lparr>perf_counter = real, optimize = (\<lambda>m b. (0, m))\<rparr>
              \<lparr>batch_size = 32, epochs = 2\<rparr>
              \<lparr>files = replicate 100 ''pug_1.jpg'', tfms = Some \<circ> length\<rparr> () = Inr s
          \<and> step_ct s = 8)"
proof -
  let ?cfg = "\<lparr>batch_size = 32, epochs = 2\<rparr>"
  let ?ds = "\<lparr>files = replicate 100 ''pug_1.jpg'', tfms = Some \<circ> length\<rparr>"
  let ?be = "\<lparr>perf_counter = real, optimize = (\<lambda>(m::unit) (b::(nat \<times> nat) list). (0::real, m))\<rparr>"
  have h1: "0 < batch_size ?cfg" by simp
  have h2: "\<forall>f\<in>set (files ?ds). labelled f" using hundred_pugs_labelled by simp
  have hd: "\<forall>f\<in>set (files ?ds). decodes ?ds f" by (simp add: decodes_Some_comp)
  have h3: "strict_mono (perf_counter ?be)" using strict_mono_real by simp
  have h4: "0 \<le> epochs ?cfg" by simp
  have c: "\<lceil>real (len ?ds) / real_of_int (batch_size ?cfg)\<rceil> = 4" by (simp add: len_def)
  have "\<exists>s. train ?be ?cfg ?ds () = Inr s \<and> step_ct s = 8"
    using step_ct_counts_every_batch[OF h1 h2 hd h3 h4, of "()", unfolded c] by auto
  with h1 h2 hd h3 h4 show ?thesis by (simp only: list_all_iff)
qed

end
